theory Spec2Isabelle
  imports Main "HOL-Library.Word" "HOL-Library.Multiset" "HOL-Library.List_Lexorder"
    "HOL-Library.Char_ord"
    "HOL-Library.Option_ord"
begin

unbundle bit_operations_syntax

section \<open>Common data\<close>

text \<open>
  Bytes are 8-bit words, byte strings are lists of them. An Avro record (a Python
  \<open>dict\<close> with string keys) is an association list from field names to integer values;
  \<open>dict.get\<close> is \<open>map_of\<close>. Python exceptions are values of \<open>py_error\<close>; a function
  that can raise returns \<open>py_error + 'a\<close>.
\<close>

type_synonym byte = "8 word"
type_synonym bytes = "byte list"
type_synonym datum = "(string \<times> int) list"

datatype py_error =
    ValueError string
  | TypeError string
  | EOFError
  | AvroException string
  | OSError
  | OverflowError

definition encode_utf8 :: "string \<Rightarrow> bytes" where
  "encode_utf8 s = map (\<lambda>c. of_nat (of_char c)) s"

section \<open>Object container files\<close>

text \<open>
  An open container file as \<open>avro.datafile.DataFileReader\<close> presents it after its
  constructor has parsed the header: the raw header bytes (everything before the first
  block, the sync marker being their last 16 bytes), the two metadata entries the tools
  look at, the sync marker, and the bytes that follow the header.
\<close>

record ocf =
  header_raw :: bytes
  meta_schema :: "bytes option"
  meta_codec :: "bytes option"
  sync_marker :: bytes
  body :: bytes

section \<open>concat.py: the pre-flight check\<close>

text \<open>\<open>ConcatTool.get_schema_and_codec\<close>: \<open>meta.get("avro.schema")\<close> and
  \<open>meta.get("avro.codec", b"null")\<close>.\<close>

definition get_schema_and_codec :: "ocf \<Rightarrow> bytes option \<times> bytes" where
  "get_schema_and_codec f =
     (meta_schema f, (case meta_codec f of None \<Rightarrow> encode_utf8 ''null'' | Some c \<Rightarrow> c))"

text \<open>The loop \<open>for url in urls[1:]\<close> of \<open>check_schema_and_codec\<close>.\<close>

fun check_rest :: "bytes option \<Rightarrow> bytes \<Rightarrow> ocf list \<Rightarrow> bool" where
  "check_rest base_schema base_codec [] = True"
| "check_rest base_schema base_codec (u # us) =
     (case get_schema_and_codec u of (schema, codec) \<Rightarrow>
        if schema \<noteq> base_schema \<or> codec \<noteq> base_codec then False
        else check_rest base_schema base_codec us)"

definition check_schema_and_codec :: "ocf list \<Rightarrow> string \<Rightarrow> bool" where
  "check_schema_and_codec urls desired_codec =
     (case urls of
        [] \<Rightarrow> True
      | u0 # rest \<Rightarrow>
          (case get_schema_and_codec u0 of (base_schema, base_codec) \<Rightarrow>
             if base_codec \<noteq> encode_utf8 desired_codec then False
             else check_rest base_schema base_codec rest))"

section \<open>io/writer.py: the partitioned writer\<close>

subsection \<open>Sequential file names\<close>

definition is_digit :: "char \<Rightarrow> bool" where
  "is_digit c = (c \<in> set ''0123456789'')"

text \<open>The regular expression \<open>part-(\d+)\<close> matched at the start of a string: the
  value is group 1, the longest run of digits after \<open>part-\<close>, which must not be empty.\<close>

definition match_part :: "string \<Rightarrow> string option" where
  "match_part s =
     (if take 5 s = ''part-'' \<and> takeWhile is_digit (drop 5 s) \<noteq> []
      then Some (takeWhile is_digit (drop 5 s)) else None)"

text \<open>\<open>re.search\<close>: the match at the leftmost position that has one.\<close>

fun re_search_part :: "string \<Rightarrow> string option" where
  "re_search_part [] = None"
| "re_search_part (c # cs) =
     (case match_part (c # cs) of
        Some g \<Rightarrow> Some g
      | None \<Rightarrow> re_search_part cs)"

text \<open>\<open>int(...)\<close> of a string of decimal digits.\<close>

definition digit_val :: "char \<Rightarrow> nat" where
  "digit_val c = of_char c - 48"

definition int_of_digits :: "string \<Rightarrow> nat" where
  "int_of_digits ds = foldl (\<lambda>n c. 10 * n + digit_val c) 0 ds"

text \<open>The decimal digits of a natural number, as \<open>str\<close> prints them.\<close>

definition digit_char :: "nat \<Rightarrow> char" where
  "digit_char d = ''0123456789'' ! d"

fun str_nat :: "nat \<Rightarrow> string" where
  "str_nat n = (if n < 10 then [digit_char n] else str_nat (n div 10) @ [digit_char (n mod 10)])"

declare str_nat.simps [simp del]

text \<open>The format specification \<open>05d\<close> for a number that is not negative: zeros on the
  left up to a width of five, and no truncation of a longer number.\<close>

definition format_05d :: "nat \<Rightarrow> string" where
  "format_05d i = replicate (5 - length (str_nat i)) (CHR ''0'') @ str_nat i"

text \<open>\<open>PartitionedAvroWriter.next_filename\<close>. \<open>if previous:\<close> is false for \<open>None\<close> and
  for the empty string.\<close>

definition next_filename :: "string option \<Rightarrow> py_error + string" where
  "next_filename previous =
     (case previous of
        None \<Rightarrow> Inr (''part-'' @ format_05d 0 @ ''.avro'')
      | Some p \<Rightarrow>
          if p = [] then Inr (''part-'' @ format_05d 0 @ ''.avro'')
          else (case re_search_part p of
                  None \<Rightarrow> Inl (ValueError (''Invalid filename format: '' @ p))
                | Some g \<Rightarrow> Inr (''part-'' @ format_05d (int_of_digits g + 1) @ ''.avro'')))"

text \<open>The grammar \<open>part-[0-9]{5}\.avro\<close> of the specification, and the grammar with at
  least five digits.\<close>

definition matches_part5 :: "string \<Rightarrow> bool" where
  "matches_part5 f =
     (length f = 15 \<and> take 5 f = ''part-'' \<and> list_all is_digit (take 5 (drop 5 f))
      \<and> drop 10 f = ''.avro'')"

definition matches_part5_or_more :: "string \<Rightarrow> bool" where
  "matches_part5_or_more f =
     (15 \<le> length f \<and> take 5 f = ''part-''
      \<and> list_all is_digit (take (length f - 10) (drop 5 f))
      \<and> drop (length f - 5) f = ''.avro'')"

subsection \<open>The writer's state and methods\<close>

text \<open>
  The \<open>DataFileWriter\<close> of the avro library is kept as the name of the file it writes and
  whether it has been closed; its buffering is left out, so an appended record is in the
  file at once. The state of a \<open>PartitionedAvroWriter\<close> holds the object's attributes and,
  as \<open>files\<close>, the files of the destination (base name and records) that its methods
  create and extend. The attributes \<open>url\<close>, \<open>schema\<close> and \<open>codec\<close> are the fields
  \<open>dest_url\<close>, \<open>writer_schema\<close> and \<open>writer_codec\<close>. \<open>url_expand\<close> stands for \<open>self.url.expand()\<close> followed by
  \<open>os.path.basename\<close>: the base names the destination pattern expands to, given the files.
\<close>

record data_file_writer =
  dfw_name :: string
  dfw_closed :: bool

record partitioned_writer =
  dest_url :: string
  writer_schema :: string
  writer_codec :: string
  current_url :: "string option"
  current_url_stream :: "string option"
  current_writer :: "data_file_writer option"
  files :: "(string \<times> datum list) list"
  url_expand :: "(string \<times> datum list) list \<Rightarrow> string list"

text \<open>\<open>__init__\<close>: the mode of the URL must be \<open>wb\<close>.\<close>

definition new_writer ::
  "string \<Rightarrow> string \<Rightarrow> string \<Rightarrow> string \<Rightarrow> (string \<times> datum list) list
    \<Rightarrow> ((string \<times> datum list) list \<Rightarrow> string list) \<Rightarrow> py_error + partitioned_writer" where
  "new_writer u mode sch cod fs ex =
     (if mode \<noteq> ''wb'' then Inl (ValueError ''URL must be opened in binary write mode.'')
      else Inr \<lparr>dest_url = u, writer_schema = sch, writer_codec = cod, current_url = None,
                current_url_stream = None, current_writer = None, files = fs,
                url_expand = ex\<rparr>)"

definition find_last_filename :: "partitioned_writer \<Rightarrow> string option" where
  "find_last_filename w =
     (let expanded = url_expand w (files w)
      in if expanded = [] then None else Some (last (sort expanded)))"

text \<open>\<open>DataFileWriter.close\<close> on the current writer, when there is one.\<close>

definition close_current :: "partitioned_writer \<Rightarrow> partitioned_writer" where
  "close_current w =
     (case current_writer w of
        None \<Rightarrow> w
      | Some cw \<Rightarrow> w\<lparr>current_writer := Some (cw\<lparr>dfw_closed := True\<rparr>)\<rparr>)"

text \<open>\<open>url.with_path\<close> on a directory URL, and opening a URL in mode \<open>wb\<close>, which
  creates the file or empties it.\<close>

definition with_path :: "string \<Rightarrow> string \<Rightarrow> string" where
  "with_path u name = u @ ''/'' @ name"

definition create_file :: "string \<Rightarrow> (string \<times> datum list) list \<Rightarrow> (string \<times> datum list) list" where
  "create_file name fs =
     (if name \<in> set (map fst fs) then map (\<lambda>(n, c). if n = name then (n, []) else (n, c)) fs
      else fs @ [(name, [])])"

text \<open>\<open>_open_writer\<close>. When \<open>next_filename\<close> raises, the current writer has been closed
  already and the attributes still hold it.\<close>

definition open_writer :: "partitioned_writer \<Rightarrow> (py_error + unit) \<times> partitioned_writer" where
  "open_writer w =
     (let w1 = close_current w
      in case next_filename (find_last_filename w1) of
           Inl e \<Rightarrow> (Inl e, w1)
         | Inr name \<Rightarrow>
             (Inr (),
              w1\<lparr>current_url := Some (with_path (dest_url w1) name),
                  current_url_stream := Some (with_path (dest_url w1) name),
                  current_writer := Some \<lparr>dfw_name = name, dfw_closed = False\<rparr>,
                  files := create_file name (files w1)\<rparr>))"

text \<open>\<open>open\<close>, under the name \<open>open_pw\<close>.\<close>

definition open_pw :: "partitioned_writer \<Rightarrow> (py_error + unit) \<times> partitioned_writer" where
  "open_pw w = (if current_writer w = None then open_writer w else (Inr (), w))"

text \<open>\<open>close\<close>, under the name \<open>close_pw\<close>.\<close>

definition close_pw :: "partitioned_writer \<Rightarrow> partitioned_writer" where
  "close_pw w =
     (let w1 = (if current_writer w \<noteq> None then (close_current w)\<lparr>current_writer := None\<rparr> else w)
      in w1\<lparr>current_url_stream := None, current_url := None\<rparr>)"

text \<open>\<open>DataFileWriter.append\<close> and \<open>DataFileWriter.flush\<close>: a closed writer raises.\<close>

definition dfw_append ::
  "data_file_writer \<Rightarrow> datum \<Rightarrow> (string \<times> datum list) list
    \<Rightarrow> py_error + (string \<times> datum list) list" where
  "dfw_append cw d fs =
     (if dfw_closed cw then Inl (ValueError ''I/O operation on closed file.'')
      else Inr (map (\<lambda>(n, c). if n = dfw_name cw then (n, c @ [d]) else (n, c)) fs))"

definition dfw_flush :: "data_file_writer \<Rightarrow> py_error + unit" where
  "dfw_flush cw =
     (if dfw_closed cw then Inl (ValueError ''I/O operation on closed file.'') else Inr ())"

text \<open>\<open>append\<close>, \<open>flush\<close> and \<open>roll\<close>, under the names \<open>append_pw\<close>, \<open>flush_pw\<close> and
  \<open>roll_pw\<close>. Each returns what it raises, or \<open>Inr ()\<close>, and the state it leaves.\<close>

definition append_pw ::
  "partitioned_writer \<Rightarrow> datum \<Rightarrow> bool \<Rightarrow> (py_error + unit) \<times> partitioned_writer" where
  "append_pw w d do_flush =
     (case current_writer w of
        None \<Rightarrow> (Inl (ValueError ''Writer is not initialized.''), w)
      | Some cw \<Rightarrow>
          (case dfw_append cw d (files w) of
             Inl e \<Rightarrow> (Inl e, w)
           | Inr fs \<Rightarrow>
               if do_flush then (dfw_flush cw, w\<lparr>files := fs\<rparr>) else (Inr (), w\<lparr>files := fs\<rparr>)))"

definition flush_pw :: "partitioned_writer \<Rightarrow> (py_error + unit) \<times> partitioned_writer" where
  "flush_pw w =
     (case current_writer w of
        None \<Rightarrow> (Inl (ValueError ''Writer is not initialized.''), w)
      | Some cw \<Rightarrow> (dfw_flush cw, w))"

definition roll_pw :: "partitioned_writer \<Rightarrow> (py_error + unit) \<times> partitioned_writer" where
  "roll_pw w =
     (case current_writer w of
        None \<Rightarrow> (Inl (ValueError ''Writer is not initialized.''), w)
      | Some cw \<Rightarrow> open_writer w)"

section \<open>io/schema.py: schema evolution\<close>

text \<open>
  The schema classes of the avro library as one datatype, a constructor for each class
  that \<open>io/schema.py\<close> tells apart with \<open>isinstance\<close>. A field has a name, a type and,
  when its properties hold the key \<open>default\<close>, the default. Two schemas are equal when
  they are the same tree.
\<close>

datatype avro_schema =
    PrimitiveSchema string
  | RecordSchema string "avro_field list"
  | EnumSchema string "string list"
  | UnionSchema "avro_schema list"
  | ArraySchema avro_schema
  | MapSchema avro_schema
  | FixedSchema string nat
and avro_field = Field string avro_schema "string option"

fun field_name :: "avro_field \<Rightarrow> string" where
  "field_name (Field n t d) = n"

fun field_type :: "avro_field \<Rightarrow> avro_schema" where
  "field_type (Field n t d) = t"

fun has_default :: "avro_field \<Rightarrow> bool" where
  "has_default (Field n t d) = (d \<noteq> None)"

text \<open>A Python \<open>dict\<close> in insertion order: assigning to a key that is present keeps its
  place, a new key goes to the end. \<open>dict_update\<close> is \<open>acc.update(other)\<close>.\<close>

type_synonym field_dict = "(string \<times> avro_field) list"

fun dict_set :: "string \<Rightarrow> avro_field \<Rightarrow> field_dict \<Rightarrow> field_dict" where
  "dict_set k v [] = [(k, v)]"
| "dict_set k v ((k', v') # kvs) =
     (if k' = k then (k, v) # kvs else (k', v') # dict_set k v kvs)"

definition dict_update :: "field_dict \<Rightarrow> field_dict \<Rightarrow> field_dict" where
  "dict_update acc other = fold (\<lambda>(k, v) a. dict_set k v a) other acc"

text \<open>\<open>".".join(name)\<close>.\<close>

fun join_dot :: "string list \<Rightarrow> string" where
  "join_dot [] = []"
| "join_dot [s] = s"
| "join_dot (s # t # ss) = s @ ''.'' @ join_dot (t # ss)"

text \<open>
  \<open>flatten_avro_schema_fields\<close>. \<open>flatten_fields\<close> is its loop over the fields of a
  record, \<open>flatten_union\<close> the inner loop over the branches of a union with their
  indices. A path of \<open>None\<close> is the empty path.
\<close>

fun flatten_avro_schema_fields :: "avro_schema \<Rightarrow> string list \<Rightarrow> field_dict"
  and flatten_fields :: "avro_field list \<Rightarrow> string list \<Rightarrow> field_dict \<Rightarrow> field_dict"
  and flatten_union :: "avro_schema list \<Rightarrow> nat \<Rightarrow> string list \<Rightarrow> field_dict \<Rightarrow> field_dict"
where
  "flatten_avro_schema_fields (RecordSchema n fs) path = flatten_fields fs path []"
| "flatten_avro_schema_fields (PrimitiveSchema t) path = []"
| "flatten_avro_schema_fields (EnumSchema n syms) path = []"
| "flatten_avro_schema_fields (UnionSchema ss) path = []"
| "flatten_avro_schema_fields (ArraySchema s) path = []"
| "flatten_avro_schema_fields (MapSchema s) path = []"
| "flatten_avro_schema_fields (FixedSchema n k) path = []"
| "flatten_fields [] path acc = acc"
| "flatten_fields (Field fname (RecordSchema n fs) d # rest) path acc =
     flatten_fields rest path
       (dict_update acc (flatten_avro_schema_fields (RecordSchema n fs) (path @ [fname])))"
| "flatten_fields (Field fname (UnionSchema ss) d # rest) path acc =
     flatten_fields rest path
       (flatten_union ss 0 (path @ [fname])
          (dict_set (join_dot (path @ [fname])) (Field fname (UnionSchema ss) d) acc))"
| "flatten_fields (Field fname t d # rest) path acc =
     flatten_fields rest path (dict_set (join_dot (path @ [fname])) (Field fname t d) acc)"
| "flatten_union [] i name acc = acc"
| "flatten_union (RecordSchema n fs # ss) i name acc =
     flatten_union ss (Suc i) name
       (dict_update acc
          (flatten_avro_schema_fields (RecordSchema n fs) (name @ [''__union__'', str_nat i])))"
| "flatten_union (s # ss) i name acc = flatten_union ss (Suc i) name acc"

text \<open>The tests of \<open>validate_avro_schema_evolution\<close> on the classes of a type. The last
  is the test the function makes for a null branch: a \<open>RecordSchema\<close> whose name is
  \<open>null\<close>.\<close>

fun is_enum :: "avro_schema \<Rightarrow> bool" where
  "is_enum (EnumSchema n syms) = True"
| "is_enum s = False"

fun is_union :: "avro_schema \<Rightarrow> bool" where
  "is_union (UnionSchema ss) = True"
| "is_union s = False"

fun symbols :: "avro_schema \<Rightarrow> string list" where
  "symbols (EnumSchema n syms) = syms"
| "symbols s = []"

fun schemas :: "avro_schema \<Rightarrow> avro_schema list" where
  "schemas (UnionSchema ss) = ss"
| "schemas s = []"

fun is_record_named_null :: "avro_schema \<Rightarrow> bool" where
  "is_record_named_null (RecordSchema n fs) = (n = ''null'')"
| "is_record_named_null s = False"

text \<open>The body of the first loop, for one entry of the flattened new schema. The messages
  leave out the schemas and symbol sets that the source prints in them.\<close>

definition check_new_field :: "field_dict \<Rightarrow> string \<Rightarrow> avro_field \<Rightarrow> py_error + unit" where
  "check_new_field schema_a_fields name field =
     (case map_of schema_a_fields name of
        None \<Rightarrow>
          if has_default field then Inr ()
          else Inl (ValueError (''Field '' @ name @ '' is missing a default value.''))
      | Some old_field \<Rightarrow>
          if \<not> has_default field \<and> has_default old_field
          then Inl (ValueError (''Field '' @ name @ '' default value cannot be removed.''))
          else if field_type field = field_type old_field then Inr ()
          else if is_enum (field_type field) \<and> is_enum (field_type old_field) then
            (if set (symbols (field_type old_field)) \<subseteq> set (symbols (field_type field))
             then Inr ()
             else Inl (ValueError (''Field '' @ name @ '' enum has changed.'')))
          else if is_union (field_type field) \<and> is_union (field_type old_field) then
            (if set (schemas (field_type old_field)) \<subseteq> set (schemas (field_type field))
             then Inr ()
             else Inl (ValueError (''Field '' @ name @ '' union has changed.'')))
          else if is_union (field_type field) then
            (if length (schemas (field_type field)) = 2
                \<and> list_ex is_record_named_null (schemas (field_type field))
             then Inr ()
             else Inl (ValueError (''Field '' @ name @ '' type has changed.'')))
          else Inl (ValueError (''Field '' @ name @ '' type has changed.'')))"

fun check_new_fields :: "field_dict \<Rightarrow> field_dict \<Rightarrow> py_error + unit" where
  "check_new_fields schema_a_fields [] = Inr ()"
| "check_new_fields schema_a_fields ((name, field) # rest) =
     (case check_new_field schema_a_fields name field of
        Inl e \<Rightarrow> Inl e
      | Inr u \<Rightarrow> check_new_fields schema_a_fields rest)"

text \<open>The second loop: a field only the old schema has needs a default.\<close>

fun check_removed_fields :: "field_dict \<Rightarrow> field_dict \<Rightarrow> py_error + unit" where
  "check_removed_fields schema_b_fields [] = Inr ()"
| "check_removed_fields schema_b_fields ((name, field) # rest) =
     (if map_of schema_b_fields name = None \<and> \<not> has_default field
      then Inl (ValueError (''Field '' @ name @ '' is missing a default value.''))
      else check_removed_fields schema_b_fields rest)"

definition validate_avro_schema_evolution :: "avro_schema \<Rightarrow> avro_schema \<Rightarrow> py_error + unit" where
  "validate_avro_schema_evolution schema_a schema_b =
     (let schema_a_fields = flatten_avro_schema_fields schema_a [];
          schema_b_fields = flatten_avro_schema_fields schema_b []
      in case check_new_fields schema_a_fields schema_b_fields of
           Inl e \<Rightarrow> Inl e
         | Inr u \<Rightarrow> check_removed_fields schema_b_fields schema_a_fields)"

section \<open>tools/filesort.py: the external merge sort\<close>

text \<open>
  \<open>FileSortTool.sort_key\<close>: the tuple of \<open>record.get(f)\<close> over the sort fields, \<open>None\<close>
  for a field the record does not have. The values of a record are integers here; other
  Avro values, floating-point numbers with their NaN among them, are outside this model.
\<close>

definition sort_key_fn :: "string list \<Rightarrow> datum \<Rightarrow> int option list" where
  "sort_key_fn sort_fields record = map (\<lambda>sort_field. map_of record sort_field) sort_fields"

text \<open>
  Python compares two tuples at the first position where they differ. Two integers
  compare as integers and two \<open>None\<close> are equal, but \<open>None\<close> against an integer raises
  \<open>TypeError\<close>. \<open>comparable\<close> says that comparing two keys does not raise. Where it
  does not raise, Python's order is the order of the lists of optional integers used
  below. A sort compares the two neighbours of every place where its result changes key,
  so \<open>sorted\<close> raises exactly when two keys of its list are not comparable.
\<close>

fun comparable :: "int option list \<Rightarrow> int option list \<Rightarrow> bool" where
  "comparable (a # as) (b # bs) = (if a = b then comparable as bs else a \<noteq> None \<and> b \<noteq> None)"
| "comparable as bs = True"

definition all_comparable :: "int option list list \<Rightarrow> bool" where
  "all_comparable ks = list_all (\<lambda>a. list_all (comparable a) ks) ks"

text \<open>Python's \<open>sorted(records, key=..., reverse=...)\<close>: a stable sort, and with
  \<open>reverse\<close> a descending one in which records of equal keys still keep their order.\<close>

definition sorted_py :: "('a \<Rightarrow> 'k::linorder) \<Rightarrow> bool \<Rightarrow> 'a list \<Rightarrow> 'a list" where
  "sorted_py key reverse xs = (if reverse then rev (sort_key key (rev xs)) else sort_key key xs)"

text \<open>The temporary directory: the spill files in the order of their creation, each the
  number \<open>k\<close> of its name \<open>batch_k.avro\<close> and its records.\<close>

type_synonym tmpdir = "(nat \<times> datum list) list"

definition sort_and_write_batch ::
  "tmpdir \<Rightarrow> nat \<Rightarrow> datum list \<Rightarrow> (datum \<Rightarrow> int option list) \<Rightarrow> bool \<Rightarrow> py_error + tmpdir" where
  "sort_and_write_batch tmp batch_id records key reverse =
     (if all_comparable (map key records)
      then Inr (tmp @ [(batch_id, sorted_py key reverse records)])
      else Inl (TypeError ''not supported between instances of NoneType and int''))"

text \<open>The loop over the input records, and the last batch after it.\<close>

fun write_batches ::
  "(datum \<Rightarrow> int option list) \<Rightarrow> bool \<Rightarrow> int \<Rightarrow> datum list \<Rightarrow> datum list \<Rightarrow> nat \<Rightarrow> tmpdir
    \<Rightarrow> py_error + tmpdir" where
  "write_batches key reverse batch_size [] batch batch_id tmp =
     (if batch \<noteq> [] then sort_and_write_batch tmp batch_id batch key reverse else Inr tmp)"
| "write_batches key reverse batch_size (record # rest) batch batch_id tmp =
     (if batch_size \<le> int (length (batch @ [record]))
      then (case sort_and_write_batch tmp batch_id (batch @ [record]) key reverse of
              Inl e \<Rightarrow> Inl e
            | Inr tmp' \<Rightarrow> write_batches key reverse batch_size rest [] (batch_id + 1) tmp')
      else write_batches key reverse batch_size rest (batch @ [record]) batch_id tmp)"

text \<open>
  \<open>heapq.merge(*iterables, key=key)\<close>, called without \<open>reverse\<close>. Its heap holds, for
  every iterable that is not exhausted, the key of its next item and the position of the
  iterable among the arguments; it yields the item of the least such pair and advances
  that iterable. \<open>min_head\<close> is the position of the least pair: the least key, and among
  equal keys the first position. \<open>merge_by_heads\<close> is the list of the items yielded when
  no comparison raises.
\<close>

fun min_head :: "('a \<Rightarrow> 'k::linorder) \<Rightarrow> 'a list list \<Rightarrow> nat option" where
  "min_head key [] = None"
| "min_head key (it # its) =
     (case min_head key its of
        None \<Rightarrow> (if it = [] then None else Some 0)
      | Some j \<Rightarrow>
          (if it \<noteq> [] \<and> key (hd it) \<le> key (hd (its ! j)) then Some 0 else Some (Suc j)))"

lemma min_head_Some:
  "min_head key its = Some i \<Longrightarrow> i < length its \<and> its ! i \<noteq> []"
proof (induction its arbitrary: i)
  case Nil
  then show ?case by simp
next
  case (Cons it its)
  then show ?case
    by (cases "min_head key its") (auto split: if_splits)
qed

lemma sum_length_update:
  assumes "i < length its" "its ! i \<noteq> []"
  shows "sum_list (map length (its[i := tl (its ! i)])) < sum_list (map length its)"
proof -
  obtain x xs where c: "its ! i = x # xs" using assms(2) by (cases "its ! i") auto
  have u: "sum_list (map length (its[i := tl (its ! i)]))
      = sum_list (map length its) + length xs - Suc (length xs)"
    using assms(1) c by (simp add: map_update sum_list_update)
  have "length (its ! i) \<le> sum_list (map length its)"
    using assms(1) by (simp add: member_le_sum_list)
  then have "Suc (length xs) \<le> sum_list (map length its)" using c by simp
  with u show ?thesis by arith
qed

function merge_by_heads :: "('a \<Rightarrow> 'k::linorder) \<Rightarrow> 'a list list \<Rightarrow> 'a list" where
  "merge_by_heads key its =
     (case min_head key its of
        None \<Rightarrow> []
      | Some i \<Rightarrow> hd (its ! i) # merge_by_heads key (its[i := tl (its ! i)]))"
  by pat_completeness auto
termination
proof (relation "measure (\<lambda>(key, its). sum_list (map length its))")
  show "wf (measure (\<lambda>(key :: 'a \<Rightarrow> 'k::linorder, its). sum_list (map length its)))" by simp
next
  fix key :: "'a \<Rightarrow> 'k::linorder" and its :: "'a list list" and i
  assume "min_head key its = Some i"
  then have "i < length its \<and> its ! i \<noteq> []" by (rule min_head_Some)
  then show "((key, its[i := tl (its ! i)]), (key, its))
      \<in> measure (\<lambda>(key, its). sum_list (map length its))"
    by (simp add: sum_length_update)
qed

declare merge_by_heads.simps [simp del]

text \<open>
  An item stays in the heap until it is yielded from the root, and the heap can put one
  item over another only through comparisons that did not raise. So the merge raises
  \<open>TypeError\<close> exactly when, at some step, the next items of two iterables have keys that
  are not comparable. \<open>heads\<close> are the next items, \<open>heads_comparable\<close> says that no
  step of the merge has two such items.
\<close>

definition heads :: "'a list list \<Rightarrow> 'a list" where
  "heads its = map hd (filter (\<lambda>it. it \<noteq> []) its)"

function heads_comparable :: "('a \<Rightarrow> int option list) \<Rightarrow> 'a list list \<Rightarrow> bool" where
  "heads_comparable key its =
     (all_comparable (map key (heads its))
      \<and> (case min_head key its of
           None \<Rightarrow> True
         | Some i \<Rightarrow> heads_comparable key (its[i := tl (its ! i)])))"
  by pat_completeness auto
termination
  by (relation "measure (\<lambda>(key, its). sum_list (map length its))")
    (auto dest: min_head_Some simp: sum_length_update)

declare heads_comparable.simps [simp del]

definition heapq_merge :: "('a \<Rightarrow> int option list) \<Rightarrow> 'a list list \<Rightarrow> py_error + 'a list" where
  "heapq_merge key its =
     (if heads_comparable key its then Inr (merge_by_heads key its)
      else Inl (TypeError ''not supported between instances of NoneType and int''))"

text \<open>
  \<open>FileSortTool.filesort\<close>, from the records of the input file to the records of the
  output file, or to the \<open>TypeError\<close> of a comparison. \<open>listdir\<close> stands for
  \<open>os.listdir(tmp)\<close>: it gives the spill files in the order in which the operating system
  lists the directory, and that order is the order of the iterators handed to
  \<open>heapq.merge\<close>. The merge is called without \<open>reverse\<close>.
\<close>

definition filesort ::
  "(tmpdir \<Rightarrow> tmpdir) \<Rightarrow> datum list \<Rightarrow> string list \<Rightarrow> bool \<Rightarrow> int \<Rightarrow> py_error + datum list" where
  "filesort listdir input sort_fields reverse batch_size =
     (case write_batches (sort_key_fn sort_fields) reverse batch_size input [] 0 [] of
        Inl e \<Rightarrow> Inl e
      | Inr tmp \<Rightarrow> heapq_merge (sort_key_fn sort_fields) (map snd (listdir tmp)))"

text \<open>The merge of two lists that takes from the left one on equal keys; the theorems
  below compare \<open>merge_by_heads\<close> with it.\<close>

fun merge2 :: "('a \<Rightarrow> 'k::linorder) \<Rightarrow> 'a list \<Rightarrow> 'a list \<Rightarrow> 'a list" where
  "merge2 key [] ys = ys"
| "merge2 key xs [] = xs"
| "merge2 key (x # xs) (y # ys) =
     (if key x \<le> key y then x # merge2 key xs (y # ys) else y # merge2 key (x # xs) ys)"

section \<open>asyncio/writer.py: the deferred writer\<close>

text \<open>
  The producer and the worker thread of a \<open>DeferredAvroWriter\<close> share the queue and the
  event \<open>_writer_thread_done\<close>, both of which are thread safe: every operation on them is
  one step. An execution is a schedule, the list of the steps in the order in which they
  take effect: an \<open>append\<close> of the producer, its \<open>stop\<close> setting the event, or one step of
  the worker. The worker is at one of four places of \<open>_writer_worker\<close>: testing the event
  in the loop condition, testing the queue in the loop condition, at \<open>queue.get\<close>, or
  past the loop. A \<open>get\<close> that finds the queue empty times out and goes back to the loop
  condition; how long it waits is not modelled. \<open>appended\<close> lists the calls of
  \<open>self.writer.append\<close>, whether or not the call raised.
\<close>

datatype worker_pc = CheckDone | CheckEmpty | Get | Exited

record deferred_writer =
  writer_queue :: "datum list"
  writer_thread_done :: bool
  worker :: worker_pc
  appended :: "datum list"

datatype event = Append datum | Stop | Worker

text \<open>The truth value of a \<open>dict\<close>: an empty one is false.\<close>

definition truthy :: "datum \<Rightarrow> bool" where
  "truthy d = (d \<noteq> [])"

definition initial_writer :: deferred_writer where
  "initial_writer =
     \<lparr>writer_queue = [], writer_thread_done = False, worker = CheckDone, appended = []\<rparr>"

fun step :: "event \<Rightarrow> deferred_writer \<Rightarrow> deferred_writer" where
  "step (Append d) s = s\<lparr>writer_queue := writer_queue s @ [d]\<rparr>"
| "step Stop s = s\<lparr>writer_thread_done := True\<rparr>"
| "step Worker s =
     (case worker s of
        CheckDone \<Rightarrow>
          if writer_thread_done s then s\<lparr>worker := CheckEmpty\<rparr> else s\<lparr>worker := Get\<rparr>
      | CheckEmpty \<Rightarrow>
          if writer_queue s = [] then s\<lparr>worker := Exited\<rparr> else s\<lparr>worker := Get\<rparr>
      | Get \<Rightarrow>
          (case writer_queue s of
             [] \<Rightarrow> s\<lparr>worker := CheckDone\<rparr>
           | d # q \<Rightarrow>
               s\<lparr>writer_queue := q,
                 appended := (if truthy d then appended s @ [d] else appended s),
                 worker := CheckDone\<rparr>)
      | Exited \<Rightarrow> s)"

definition run :: "event list \<Rightarrow> deferred_writer \<Rightarrow> deferred_writer" where
  "run evs s = fold step evs s"

text \<open>The records a schedule appends, in order; and a schedule in which no \<open>append\<close>
  comes after \<open>stop\<close>.\<close>

fun appends :: "event list \<Rightarrow> datum list" where
  "appends [] = []"
| "appends (Append d # evs) = d # appends evs"
| "appends (e # evs) = appends evs"

definition stop_after_appends :: "event list \<Rightarrow> bool" where
  "stop_after_appends evs = (appends (dropWhile (\<lambda>e. e \<noteq> Stop) evs) = [])"

text \<open>What holds of the state after every schedule in which no \<open>append\<close> comes after
  \<open>stop\<close>: the records written and the truthy records still queued are the truthy records
  appended, in order; the event is set exactly when \<open>stop\<close> was called; and the worker is
  past the loop only with the event set and the queue empty.\<close>

definition writer_inv :: "event list \<Rightarrow> deferred_writer \<Rightarrow> bool" where
  "writer_inv evs s \<longleftrightarrow>
     appended s @ filter truthy (writer_queue s) = filter truthy (appends evs)
     \<and> (writer_thread_done s \<longleftrightarrow> Stop \<in> set evs)
     \<and> (worker s = CheckEmpty \<longrightarrow> writer_thread_done s)
     \<and> (worker s = Exited \<longrightarrow> writer_thread_done s \<and> writer_queue s = [])"

section \<open>Framing: variable-length integers and blocks\<close>

text \<open>
  An open binary file is its content and a position. \<open>fh_read\<close> is \<open>fh.read(n)\<close> for
  \<open>n\<close> that is not negative: the bytes from the position on, at most \<open>n\<close> of them and
  fewer at the end of the file, and the position after them.
\<close>

definition fh_read :: "bytes \<Rightarrow> nat \<Rightarrow> nat \<Rightarrow> bytes \<times> nat" where
  "fh_read content pos n =
     (take n (drop pos content), pos + length (take n (drop pos content)))"

text \<open>
  \<open>RepairTool.read_varint\<close>. The loop reads a byte at a time, ors the low seven bits
  into the result at the current shift and stops at a byte whose high bit is clear; at
  the end of the file it raises \<open>EOFError\<close>. The loop works on the bytes from the
  position on and gives the bytes left.
\<close>

fun read_varint_loop :: "bytes \<Rightarrow> nat \<Rightarrow> int \<Rightarrow> (int \<times> bytes) option" where
  "read_varint_loop [] shift result = None"
| "read_varint_loop (byte # bs) shift result =
     (if byte AND 0x80 = 0 then Some (result OR push_bit shift (uint (byte AND 0x7F)), bs)
      else read_varint_loop bs (shift + 7) (result OR push_bit shift (uint (byte AND 0x7F))))"

definition zigzag_decode :: "int \<Rightarrow> int" where
  "zigzag_decode n = drop_bit 1 n XOR - (n AND 1)"

definition read_varint :: "bytes \<Rightarrow> nat \<Rightarrow> py_error + int \<times> nat" where
  "read_varint content pos =
     (case read_varint_loop (drop pos content) 0 0 of
        None \<Rightarrow> Inl EOFError
      | Some (result, rest) \<Rightarrow> Inr (zigzag_decode result, length content - length rest))"

text \<open>
  \<open>BinaryDecoder.read_long\<close> of the avro library: the same loop and the same zig-zag
  step. Its \<open>read(1)\<close> raises an \<open>AvroException\<close> with the message that \<open>count.py\<close> looks
  for when the file has no byte left.
\<close>

definition read_long :: "bytes \<Rightarrow> nat \<Rightarrow> py_error + int \<times> nat" where
  "read_long content pos =
     (case read_varint_loop (drop pos content) 0 0 of
        None \<Rightarrow> Inl (AvroException ''Read 0 bytes, expected 1 bytes'')
      | Some (result, rest) \<Rightarrow> Inr (zigzag_decode result, length content - length rest))"

text \<open>
  \<open>BinaryEncoder.write_long\<close> of the avro library: the zig-zag step
  \<open>(datum << 1) ^ (datum >> 63)\<close>, then seven bits a byte, the low ones first, with the
  high bit set on every byte but the last. The value after the zig-zag step is never
  negative, so the loop is written on a natural number: its test \<open>datum & ~0x7F != 0\<close> is
  \<open>drop_bit 7 n \<noteq> 0\<close> there.
\<close>

definition zigzag_encode :: "int \<Rightarrow> int" where
  "zigzag_encode datum = push_bit 1 datum XOR drop_bit 63 datum"

function write_varint :: "nat \<Rightarrow> bytes" where
  "write_varint n =
     (if drop_bit 7 n \<noteq> 0 then of_nat ((n AND 0x7F) OR 0x80) # write_varint (drop_bit 7 n)
      else [of_nat n])"
  by pat_completeness auto
termination
proof (relation "measure (\<lambda>n. n)")
  show "wf (measure (\<lambda>n :: nat. n))" by simp
next
  fix n :: nat
  assume "drop_bit 7 n \<noteq> 0"
  then have "0 < n" by (cases "n = 0") simp_all
  then have "n div 2 ^ 7 < n" by (intro div_less_dividend) simp_all
  then show "(drop_bit 7 n, n) \<in> measure (\<lambda>n. n)" by (simp add: drop_bit_eq_div)
qed

declare write_varint.simps [simp del]

definition write_long :: "int \<Rightarrow> bytes" where
  "write_long datum = write_varint (nat (zigzag_encode datum))"

text \<open>
  \<open>BinaryDecoder.read(n)\<close> of the avro library: it refuses a negative \<open>n\<close> and a short
  read. The file's own \<open>read\<close> raises \<open>OverflowError\<close> for a size that does not fit a
  signed 64-bit integer.
\<close>

definition decoder_read :: "bytes \<Rightarrow> nat \<Rightarrow> int \<Rightarrow> py_error + bytes \<times> nat" where
  "decoder_read content pos n =
     (if n < 0 then Inl (AvroException ''Requested bytes to read, expected positive integer.'')
      else if 2 ^ 63 \<le> n then Inl OverflowError
      else if length (fst (fh_read content pos (nat n))) \<noteq> nat n
        then Inl (AvroException ''Read fewer bytes than expected'')
      else Inr (fh_read content pos (nat n)))"

text \<open>
  A block as the container format frames it: the count and the size of the payload as
  zig-zag variable-length integers, the payload, the sync marker. A block is kept as its
  count and payload.
\<close>

type_synonym block = "int \<times> bytes"

definition encode_block :: "bytes \<Rightarrow> block \<Rightarrow> bytes" where
  "encode_block sync b =
     write_long (fst b) @ write_long (int (length (snd b))) @ snd b @ sync"

definition encode_blocks :: "bytes \<Rightarrow> block list \<Rightarrow> bytes" where
  "encode_blocks sync bs = concat (map (encode_block sync) bs)"

text \<open>
  The Avro codec, which the tools use as a black box, is two parameters of the model:
  \<open>read_datum schema\<close> is \<open>DatumReader(schema).read\<close>, reading one record from the bytes
  of a decoder and giving the record and the bytes left, or \<open>None\<close> when it raises;
  \<open>decompress codec\<close> undoes the compression of a payload. \<open>decode_records\<close> is the loop
  \<open>for _ in range(block_count)\<close> of \<open>repair.py\<close>: the records read until the count is
  reached or a read fails, and whether none failed.
\<close>

type_synonym datum_reader = "bytes option \<Rightarrow> bytes \<Rightarrow> (datum \<times> bytes) option"
type_synonym decompressor = "bytes \<Rightarrow> bytes \<Rightarrow> bytes option"

fun decode_records :: "(bytes \<Rightarrow> (datum \<times> bytes) option) \<Rightarrow> nat \<Rightarrow> bytes \<Rightarrow> datum list \<Rightarrow> datum list \<times> bool" where
  "decode_records rd 0 data acc = (acc, True)"
| "decode_records rd (Suc n) data acc =
     (case rd data of
        None \<Rightarrow> (acc, False)
      | Some (r, rest) \<Rightarrow> decode_records rd n rest (acc @ [r]))"

definition decode_block ::
  "datum_reader \<Rightarrow> decompressor \<Rightarrow> bytes option \<Rightarrow> bytes \<Rightarrow> block \<Rightarrow> datum list option" where
  "decode_block read_datum decompress schema codec b =
     (case decompress codec (snd b) of
        None \<Rightarrow> None
      | Some raw \<Rightarrow>
          (case decode_records (read_datum schema) (nat (fst b)) raw [] of
             (recs, ok) \<Rightarrow> if ok then Some recs else None))"

text \<open>
  Modelled from the spec: the iteration of the avro library's \<open>DataFileReader\<close> over a
  file, which the tools call and the repository does not contain. It follows the layout
  of a container file that the specification gives: until the end of the file, a count
  and a size as zig-zag variable-length integers, the payload of that size, the records
  of the payload, and 16 bytes that must be the sync marker of the header. \<open>None\<close> is a
  reader that does not return.
\<close>

partial_function (option) read_blocks ::
  "datum_reader \<Rightarrow> decompressor \<Rightarrow> bytes option \<Rightarrow> bytes \<Rightarrow> bytes \<Rightarrow> bytes \<Rightarrow> nat \<Rightarrow> datum list
    \<Rightarrow> (py_error + datum list) option" where
  "read_blocks read_datum decompress schema codec sync content pos acc =
     (if length content \<le> pos then Some (Inr acc)
      else case read_long content pos of
        Inl e \<Rightarrow> Some (Inl e)
      | Inr (block_count, p1) \<Rightarrow>
          (case read_long content p1 of
             Inl e \<Rightarrow> Some (Inl e)
           | Inr (block_size, p2) \<Rightarrow>
               (case decoder_read content p2 block_size of
                  Inl e \<Rightarrow> Some (Inl e)
                | Inr (payload, p3) \<Rightarrow>
                    (case decode_block read_datum decompress schema codec (block_count, payload) of
                       None \<Rightarrow> Some (Inl (AvroException ''Cannot decode block''))
                     | Some recs \<Rightarrow>
                         (case decoder_read content p3 16 of
                            Inl e \<Rightarrow> Some (Inl e)
                          | Inr (marker, p4) \<Rightarrow>
                              if marker \<noteq> sync
                              then Some (Inl (AvroException ''Sync marker does not match''))
                              else read_blocks read_datum decompress schema codec sync content p4
                                     (acc @ recs))))))"

definition datafile_records ::
  "datum_reader \<Rightarrow> decompressor \<Rightarrow> ocf \<Rightarrow> (py_error + datum list) option" where
  "datafile_records read_datum decompress f =
     read_blocks read_datum decompress (meta_schema f) (snd (get_schema_and_codec f))
       (sync_marker f) (header_raw f @ body f) (length (header_raw f)) []"

text \<open>A container file whose body is the given blocks, each with a count and a payload
  size that fit the format's 64-bit integers, a payload that decodes, and the sync marker
  of the header, which has 16 bytes and ends the header.\<close>

definition valid_block ::
  "datum_reader \<Rightarrow> decompressor \<Rightarrow> bytes option \<Rightarrow> bytes \<Rightarrow> block \<Rightarrow> bool" where
  "valid_block read_datum decompress schema codec b =
     (0 \<le> fst b \<and> fst b < 2 ^ 63 \<and> int (length (snd b)) < 2 ^ 63
      \<and> decode_block read_datum decompress schema codec b \<noteq> None)"

definition valid_ocf :: "datum_reader \<Rightarrow> decompressor \<Rightarrow> ocf \<Rightarrow> block list \<Rightarrow> bool" where
  "valid_ocf read_datum decompress f bs =
     (length (sync_marker f) = 16
      \<and> drop (length (header_raw f) - 16) (header_raw f) = sync_marker f
      \<and> body f = encode_blocks (sync_marker f) bs
      \<and> list_all (valid_block read_datum decompress (meta_schema f)
            (snd (get_schema_and_codec f))) bs)"

text \<open>The records of a list of valid blocks of a file, in order.\<close>

definition records_of_blocks :: "datum_reader \<Rightarrow> decompressor \<Rightarrow> ocf \<Rightarrow> block list \<Rightarrow> datum list" where
  "records_of_blocks read_datum decompress f bs =
     concat (map (\<lambda>b. the (decode_block read_datum decompress (meta_schema f)
                           (snd (get_schema_and_codec f)) b)) bs)"

section \<open>tools/concat.py: concatenation by records and by blocks\<close>

text \<open>
  \<open>ConcatTool.concat\<close>. The schema is read from the first input that is not empty, and
  without such an input the tool raises. Every record of every input, in order, is
  appended to the writer of the output; the value is the list of the records appended,
  which is what the output file holds. \<open>concat_from\<close> is the loop over the inputs.
\<close>

fun concat_from ::
  "datum_reader \<Rightarrow> decompressor \<Rightarrow> ocf list \<Rightarrow> datum list \<Rightarrow> (py_error + datum list) option" where
  "concat_from read_datum decompress [] written = Some (Inr written)"
| "concat_from read_datum decompress (f # fs) written =
     (case datafile_records read_datum decompress f of
        None \<Rightarrow> None
      | Some (Inl e) \<Rightarrow> Some (Inl e)
      | Some (Inr recs) \<Rightarrow> concat_from read_datum decompress fs (written @ recs))"

definition concat_records ::
  "datum_reader \<Rightarrow> decompressor \<Rightarrow> ocf list \<Rightarrow> string \<Rightarrow> (py_error + datum list) option" where
  "concat_records read_datum decompress input_urls codec =
     (if list_ex (\<lambda>f. 0 < length (header_raw f @ body f)) input_urls
      then concat_from read_datum decompress input_urls []
      else Some (Inl (ValueError ''No non-empty Avro files found.'')))"

text \<open>
  The inner loop of \<open>ConcatTool.block_concat\<close> over the blocks of one input, from the
  position after its header: at the end of the file it stops; otherwise it reads the
  count, the size, the payload and 16 bytes, and writes the count, the size, the payload
  and the sync marker of the output. None of these calls raises one of the exceptions
  that the loop catches, so what they raise leaves the tool. \<open>out\<close> is what has been
  written to the output file.
\<close>

partial_function (option) copy_blocks ::
  "bytes \<Rightarrow> bytes \<Rightarrow> nat \<Rightarrow> bytes \<Rightarrow> (py_error + bytes) option" where
  "copy_blocks output_sync_marker content pos out =
     (if length content \<le> pos then Some (Inr out)
      else case read_long content pos of
        Inl e \<Rightarrow> Some (Inl e)
      | Inr (block_count, p1) \<Rightarrow>
          (case read_long content p1 of
             Inl e \<Rightarrow> Some (Inl e)
           | Inr (block_size, p2) \<Rightarrow>
               (case decoder_read content p2 block_size of
                  Inl e \<Rightarrow> Some (Inl e)
                | Inr (block_data, p3) \<Rightarrow>
                    (case decoder_read content p3 16 of
                       Inl e \<Rightarrow> Some (Inl e)
                     | Inr (discarded, p4) \<Rightarrow>
                         copy_blocks output_sync_marker content p4
                           (out @ write_long block_count @ write_long block_size
                              @ block_data @ output_sync_marker)))))"

text \<open>The loop over the inputs, and \<open>block_concat\<close>: the header of the first input is
  copied as it is, and its sync marker is the sync marker of the output.\<close>

fun block_concat_from :: "bytes \<Rightarrow> ocf list \<Rightarrow> bytes \<Rightarrow> (py_error + bytes) option" where
  "block_concat_from output_sync_marker [] out = Some (Inr out)"
| "block_concat_from output_sync_marker (f # fs) out =
     (case copy_blocks output_sync_marker (header_raw f @ body f) (length (header_raw f)) out of
        None \<Rightarrow> None
      | Some (Inl e) \<Rightarrow> Some (Inl e)
      | Some (Inr out') \<Rightarrow> block_concat_from output_sync_marker fs out')"

definition block_concat :: "ocf list \<Rightarrow> string \<Rightarrow> (py_error + bytes) option" where
  "block_concat input_urls codec =
     (case input_urls of
        [] \<Rightarrow> Some (Inr [])
      | f # fs \<Rightarrow> block_concat_from (sync_marker f) (f # fs) (header_raw f))"

section \<open>tools/count.py: the fast count\<close>

text \<open>
  The loop of \<open>CountTool.fast_count_records\<close>. Its value is the total (\<open>total_records\<close>) and whether the
  warning about a file still open for writing was logged, or the exception that leaves
  the function. Reading a count or a size at the end of the file raises the
  \<open>AvroException\<close> that ends the loop; the total grows once both are read; the seek over
  the payload may pass the end of the file, raises \<open>OSError\<close> before its start and
  \<open>OverflowError\<close> for an offset that does not fit 64 bits; a marker that differs from the
  sync marker, a short one included, ends the loop with the warning. \<open>None\<close> is a loop
  that does not end.
\<close>

partial_function (option) fast_count_loop ::
  "bytes \<Rightarrow> bytes \<Rightarrow> nat \<Rightarrow> int \<Rightarrow> (py_error + int \<times> bool) option" where
  "fast_count_loop content sync pos total_records =
     (case read_long content pos of
        Inl e \<Rightarrow> Some (Inr (total_records, False))
      | Inr (block_count, p1) \<Rightarrow>
          (case read_long content p1 of
             Inl e \<Rightarrow> Some (Inr (total_records, False))
           | Inr (block_size, p2) \<Rightarrow>
               if 2 ^ 63 \<le> block_size \<or> block_size < - (2 ^ 63) then Some (Inl OverflowError)
               else if int p2 + block_size < 0 then Some (Inl OSError)
               else (case fh_read content (nat (int p2 + block_size)) 16 of
                       (marker, p3) \<Rightarrow>
                         if marker \<noteq> sync then Some (Inr (total_records + block_count, True))
                         else fast_count_loop content sync p3 (total_records + block_count))))"

text \<open>\<open>fast_count_records\<close>: the header is read again, which leaves the position after
  it, and the loop starts with a total of 0.\<close>

definition fast_count_records :: "ocf \<Rightarrow> (py_error + int \<times> bool) option" where
  "fast_count_records f =
     fast_count_loop (header_raw f @ body f) (sync_marker f) (length (header_raw f)) 0"

section \<open>tools/repair.py: the repair loop\<close>

text \<open>\<open>bytes.find\<close>: the first index at which the pattern occurs.\<close>

fun find_sub :: "bytes \<Rightarrow> bytes \<Rightarrow> nat option" where
  "find_sub pat [] = (if pat = [] then Some 0 else None)"
| "find_sub pat (b # bs) =
     (if take (length pat) (b # bs) = pat then Some 0 else map_option Suc (find_sub pat bs))"

text \<open>The slice \<open>buffer[-n:]\<close> for an integer \<open>n\<close>.\<close>

definition slice_from_minus :: "int \<Rightarrow> bytes \<Rightarrow> bytes" where
  "slice_from_minus n buffer =
     (if 0 < n then drop (length buffer - nat n) buffer
      else if n = 0 then buffer
      else drop (nat (- n)) buffer)"

text \<open>\<open>RepairTool.scan_to_next_sync_marker\<close>: \<open>None\<close> for \<open>False\<close>, and for \<open>True\<close> the
  position the file is left at.\<close>

function scan_loop :: "bytes \<Rightarrow> bytes \<Rightarrow> nat \<Rightarrow> nat \<Rightarrow> bytes \<Rightarrow> nat option" where
  "scan_loop content sync chunk_size pos buffer =
     (if fst (fh_read content pos chunk_size) = [] then None
      else (case find_sub sync (buffer @ fst (fh_read content pos chunk_size)) of
              Some idx \<Rightarrow>
                Some (snd (fh_read content pos chunk_size) + idx + length sync
                        - length (buffer @ fst (fh_read content pos chunk_size)))
            | None \<Rightarrow>
                scan_loop content sync chunk_size (snd (fh_read content pos chunk_size))
                  (slice_from_minus (int (length sync) - 1)
                     (buffer @ fst (fh_read content pos chunk_size)))))"
  by pat_completeness auto
termination
proof (relation "measure (\<lambda>(content, sync, chunk_size, pos, buffer). length content - pos)")
  show "wf (measure (\<lambda>(content :: bytes, sync :: bytes, chunk_size :: nat, pos :: nat,
      buffer :: bytes). length content - pos))"
    by simp
next
  fix content sync :: bytes and chunk_size pos :: nat and buffer :: bytes
  assume "fst (fh_read content pos chunk_size) \<noteq> []"
  then have "pos < length content" "0 < length (take chunk_size (drop pos content))"
    by (auto simp: fh_read_def)
  then show "((content, sync, chunk_size, snd (fh_read content pos chunk_size),
        slice_from_minus (int (length sync) - 1)
          (buffer @ fst (fh_read content pos chunk_size))),
       (content, sync, chunk_size, pos, buffer))
      \<in> measure (\<lambda>(content, sync, chunk_size, pos, buffer). length content - pos)"
    by (simp add: fh_read_def)
qed

declare scan_loop.simps [simp del]

definition scan_to_next_sync_marker :: "bytes \<Rightarrow> bytes \<Rightarrow> nat \<Rightarrow> nat option" where
  "scan_to_next_sync_marker content sync pos = scan_loop content sync 8192 pos []"

text \<open>\<open>f.read(block_size)\<close> on a buffered binary file: a size of \<open>-1\<close> reads to the end of
  the file. A smaller size raises \<open>ValueError\<close> and one that does not fit 64 bits raises
  \<open>OverflowError\<close>; the loop tests for both before it calls this.\<close>

definition file_read :: "bytes \<Rightarrow> nat \<Rightarrow> int \<Rightarrow> bytes \<times> nat" where
  "file_read content pos n =
     (if n = - 1 then fh_read content pos (length content) else fh_read content pos (nat n))"

text \<open>
  The loop of \<open>RepairTool.repair\<close> over the blocks of one input. It ends, with the
  counters and the records written to the output, when a count or a size cannot be read
  (\<open>EOFError\<close>) or when no further sync marker is found. A payload read that raises is a
  corrupt block and the scan goes on from there. A block whose trailing marker is not the
  sync marker is counted as a block and as corrupt, and the scan goes on after it. The
  records of a block with the right marker are decoded and written one by one; the first
  that fails counts the block as corrupt and ends the block, and the loop goes on after
  its marker. The writer's \<open>append\<close> of a decoded record is taken not to raise.
\<close>

partial_function (option) repair_loop ::
  "datum_reader \<Rightarrow> bytes option \<Rightarrow> bytes \<Rightarrow> bytes \<Rightarrow> nat \<Rightarrow> nat \<Rightarrow> nat \<Rightarrow> datum list
    \<Rightarrow> (nat \<times> nat \<times> datum list) option" where
  "repair_loop read_datum schema sync content pos count_blocks count_corrupt_blocks out =
     (case read_varint content pos of
        Inl e \<Rightarrow> Some (count_blocks, count_corrupt_blocks, out)
      | Inr (block_count, p1) \<Rightarrow>
          (case read_varint content p1 of
             Inl e \<Rightarrow> Some (count_blocks, count_corrupt_blocks, out)
           | Inr (block_size, p2) \<Rightarrow>
               if block_size < - 1 \<or> 2 ^ 63 \<le> block_size then
                 (case scan_to_next_sync_marker content sync p2 of
                    None \<Rightarrow> Some (count_blocks, count_corrupt_blocks + 1, out)
                  | Some p \<Rightarrow>
                      repair_loop read_datum schema sync content p
                        count_blocks (count_corrupt_blocks + 1) out)
               else
                 (case file_read content p2 block_size of
                    (block_data, p3) \<Rightarrow>
                      (case fh_read content p3 16 of
                         (sync_check, p4) \<Rightarrow>
                           if sync_check \<noteq> sync then
                             (case scan_to_next_sync_marker content sync p4 of
                                None \<Rightarrow> Some (count_blocks + 1, count_corrupt_blocks + 1, out)
                              | Some p \<Rightarrow>
                                  repair_loop read_datum schema sync content p
                                    (count_blocks + 1) (count_corrupt_blocks + 1) out)
                           else
                             (case decode_records (read_datum schema) (nat block_count)
                                     block_data [] of
                                (recs, ok) \<Rightarrow>
                                  repair_loop read_datum schema sync content p4
                                    (count_blocks + 1)
                                    (if ok then count_corrupt_blocks else count_corrupt_blocks + 1)
                                    (out @ recs))))))"

text \<open>\<open>read_header\<close> and the loop for one input: the report's two counters and the
  records of the output file.\<close>

definition repair_file :: "datum_reader \<Rightarrow> ocf \<Rightarrow> (py_error + nat \<times> nat \<times> datum list) option" where
  "repair_file read_datum f =
     (if meta_schema f = None
      then Some (Inl (ValueError ''Schema is not defined in the Avro file.''))
      else if snd (get_schema_and_codec f) \<noteq> encode_utf8 ''null''
      then Some (Inl (ValueError ''Unsupported codec''))
      else map_option Inr
        (repair_loop read_datum (meta_schema f) (sync_marker f) (header_raw f @ body f)
           (length (header_raw f)) 0 0 []))"

section \<open>Concrete inputs\<close>

text \<open>The inputs at which the theorems below are instantiated.\<close>

definition example_writer :: partitioned_writer where
  "example_writer =
     \<lparr>dest_url = ''out'', writer_schema = ''int'', writer_codec = ''null'', current_url = None,
      current_url_stream = None, current_writer = None, files = [], url_expand = map fst\<rparr>"


text \<open>A datum reader that reads one byte as a record with the field \<open>id\<close>, the null
  codec, a sync marker, a container file of one block of two records, and a file that ends
  inside its only block.\<close>

definition example_sync :: bytes where
  "example_sync = [1, 2, 3, 4, 5, 6, 7, 8, 9, 10, 11, 12, 13, 14, 15, 16]"

definition example_read_datum :: datum_reader where
  "example_read_datum schema data =
     (case data of [] \<Rightarrow> None | b # rest \<Rightarrow> Some ([(''id'', uint b)], rest))"

definition example_decompress :: decompressor where
  "example_decompress codec payload = Some payload"

definition example_file :: ocf where
  "example_file =
     \<lparr>header_raw = [79, 98, 106, 1] @ example_sync, meta_schema = Some [], meta_codec = None,
      sync_marker = example_sync, body = encode_blocks example_sync [(2, [5, 6])]\<rparr>"

definition example_open_file :: ocf where
  "example_open_file =
     \<lparr>header_raw = [79, 98, 106, 1] @ example_sync, meta_schema = Some [], meta_codec = None,
      sync_marker = example_sync, body = [6, 2, 9]\<rparr>"

section \<open>Theorems\<close>

subsection \<open>The pre-flight check of concat\<close>

text \<open>
  C10. \<open>check_schema_and_codec\<close> returns \<open>True\<close> for an empty list of inputs, whatever
  the desired codec is: the pre-flight of block concatenation passes when there is
  nothing to check.
\<close>

theorem check_schema_and_codec_empty:
  "check_schema_and_codec [] desired_codec = True"
  by (simp add: check_schema_and_codec_def)


subsection \<open>Sequential file names\<close>

lemma lt10: "(d::nat) < 10 \<Longrightarrow> d \<in> {0,1,2,3,4,5,6,7,8,9}" by auto

lemma digit_val_char: "d < 10 \<Longrightarrow> digit_val (digit_char d) = d"
  by (drule lt10) (auto simp: digit_val_def digit_char_def)

lemma is_digit_char: "d < 10 \<Longrightarrow> is_digit (digit_char d)"
  by (drule lt10) (auto simp: is_digit_def digit_char_def)

lemma str_nat_nonempty: "str_nat n \<noteq> []"
  by (subst str_nat.simps) simp

lemma str_nat_digits: "list_all is_digit (str_nat n)"
proof (induction n rule: str_nat.induct)
  case (1 n)
  show ?case
  proof (cases "n < 10")
    case True
    then show ?thesis by (subst str_nat.simps) (simp add: is_digit_char)
  next
    case False
    with 1 show ?thesis by (subst str_nat.simps) (simp add: is_digit_char)
  qed
qed

lemma int_of_digits_snoc: "int_of_digits (ds @ [c]) = 10 * int_of_digits ds + digit_val c"
  by (simp add: int_of_digits_def)

lemma int_of_str_nat: "int_of_digits (str_nat n) = n"
proof (induction n rule: str_nat.induct)
  case (1 n)
  show ?case
  proof (cases "n < 10")
    case True
    then show ?thesis by (subst str_nat.simps) (simp add: int_of_digits_def digit_val_char)
  next
    case False
    with 1 show ?thesis by (subst str_nat.simps) (simp add: int_of_digits_snoc digit_val_char)
  qed
qed

lemma foldl_zeros:
  "foldl (\<lambda>n c. 10 * n + digit_val c) a (replicate k (CHR ''0'')) = 10 ^ k * a"
  by (induction k arbitrary: a) (simp_all add: digit_val_def)

lemma int_of_digits_zeros: "int_of_digits (replicate k (CHR ''0'') @ ds) = int_of_digits ds"
  by (simp add: int_of_digits_def foldl_zeros)

lemma length_str_nat: "length (str_nat n) \<le> Suc k \<longleftrightarrow> n < 10 ^ Suc k"
proof (induction n arbitrary: k rule: str_nat.induct)
  case (1 n)
  show ?case
  proof (cases "n < 10")
    case True
    have "(10::nat) \<le> 10 ^ Suc k" by simp
    with True have "n < 10 ^ Suc k" by linarith
    with True show ?thesis by (subst str_nat.simps) simp
  next
    case False
    show ?thesis
    proof (cases k)
      case 0
      with False show ?thesis by (subst str_nat.simps) (simp add: str_nat_nonempty)
    next
      case (Suc j)
      have "length (str_nat (n div 10)) \<le> Suc j \<longleftrightarrow> n div 10 < 10 ^ Suc j"
        using 1 False by simp
      moreover have "n div 10 < 10 ^ Suc j \<longleftrightarrow> n < 10 ^ Suc (Suc j)"
        by (simp add: less_mult_imp_div_less div_less_iff_less_mult)
      ultimately show ?thesis using False Suc by (subst str_nat.simps) simp
    qed
  qed
qed

lemma length_str_nat_le5: "length (str_nat n) \<le> 5 \<longleftrightarrow> n \<le> 99999"
proof -
  have "length (str_nat n) \<le> Suc 4 \<longleftrightarrow> n < 10 ^ Suc 4" by (rule length_str_nat)
  moreover have "Suc 4 = 5" by simp
  moreover have "(10::nat) ^ Suc 4 = 100000" by simp
  then have "n < 10 ^ Suc 4 \<longleftrightarrow> n \<le> 99999" by linarith
  ultimately show ?thesis by simp
qed

lemma is_digit_zero: "is_digit (CHR ''0'')"
  by (simp add: is_digit_def)

lemma zeros_digits: "list_all is_digit (replicate k (CHR ''0''))"
  by (induction k) (simp_all add: is_digit_zero)

lemma format_05d_digits: "list_all is_digit (format_05d i)"
  by (simp add: format_05d_def str_nat_digits zeros_digits)

lemma format_05d_length: "5 \<le> length (format_05d i)"
  by (simp add: format_05d_def)

lemma format_05d_length5: "length (format_05d i) = 5 \<longleftrightarrow> i \<le> 99999"
proof -
  have "length (format_05d i) = 5 \<longleftrightarrow> length (str_nat i) \<le> 5"
    unfolding format_05d_def by (simp only: length_append length_replicate) arith
  then show ?thesis by (simp only: length_str_nat_le5)
qed

lemma format_05d_value: "int_of_digits (format_05d i) = i"
  by (simp add: format_05d_def int_of_digits_zeros int_of_str_nat)

lemma match_part_Some:
  "match_part s = Some g \<longleftrightarrow>
     (\<exists>d rest. s = ''part-'' @ d # rest \<and> is_digit d \<and> g = takeWhile is_digit (d # rest))"
proof
  assume "match_part s = Some g"
  then have t: "take 5 s = ''part-''" and n: "takeWhile is_digit (drop 5 s) \<noteq> []"
    and g: "g = takeWhile is_digit (drop 5 s)"
    by (auto simp: match_part_def split: if_splits)
  from n obtain d rest where dr: "drop 5 s = d # rest" by (cases "drop 5 s") auto
  with n have "is_digit d" by (auto split: if_splits)
  moreover have "s = ''part-'' @ d # rest"
    using append_take_drop_id [of 5 s] t dr by simp
  ultimately show "\<exists>d rest. s = ''part-'' @ d # rest \<and> is_digit d \<and> g = takeWhile is_digit (d # rest)"
    using g dr by auto
next
  assume "\<exists>d rest. s = ''part-'' @ d # rest \<and> is_digit d \<and> g = takeWhile is_digit (d # rest)"
  then show "match_part s = Some g" by (auto simp: match_part_def)
qed

lemma match_part_None:
  "match_part s = None \<longleftrightarrow> \<not> (\<exists>d rest. s = ''part-'' @ d # rest \<and> is_digit d)"
proof -
  have "match_part s = None \<longleftrightarrow> \<not> (\<exists>g. match_part s = Some g)" by auto
  then show ?thesis unfolding match_part_Some by auto
qed

lemma re_search_part_None:
  "re_search_part s = None \<longleftrightarrow>
     \<not> (\<exists>pre d rest. s = pre @ ''part-'' @ d # rest \<and> is_digit d)"
proof (induction s)
  case Nil
  show ?case by simp
next
  case (Cons c cs)
  show ?case
  proof (cases "match_part (c # cs)")
    case (Some g)
    then obtain d rest where "c # cs = [] @ ''part-'' @ d # rest" "is_digit d"
      unfolding match_part_Some by auto
    then have "\<exists>pre d rest. c # cs = pre @ ''part-'' @ d # rest \<and> is_digit d" by blast
    with Some show ?thesis by simp
  next
    case None
    have "(\<exists>pre d rest. c # cs = pre @ ''part-'' @ d # rest \<and> is_digit d) \<longleftrightarrow>
          (\<exists>pre d rest. cs = pre @ ''part-'' @ d # rest \<and> is_digit d)" (is "?L \<longleftrightarrow> ?R")
    proof
      assume ?L
      then obtain pre d rest where e: "c # cs = pre @ ''part-'' @ d # rest" and d: "is_digit d"
        by blast
      show ?R
      proof (cases pre)
        case Nil
        with e d None show ?thesis unfolding match_part_None by auto
      next
        case (Cons p ps)
        with e have "cs = ps @ ''part-'' @ d # rest" by simp
        with d show ?thesis by blast
      qed
    next
      assume ?R
      then obtain pre d rest where "cs = pre @ ''part-'' @ d # rest" "is_digit d" by blast
      then have "c # cs = (c # pre) @ ''part-'' @ d # rest \<and> is_digit d" by simp
      then show ?L by blast
    qed
    with None Cons show ?thesis by simp
  qed
qed

lemma not_digit_dot: "\<not> is_digit (CHR ''.'')"
  by (simp add: is_digit_def)

lemma re_search_part_exact:
  assumes "ds \<noteq> []" "list_all is_digit ds"
  shows "re_search_part (''part-'' @ ds @ ''.avro'') = Some ds"
proof -
  obtain d rest where ds: "ds = d # rest" using assms(1) by (cases ds) auto
  have "takeWhile is_digit (ds @ ''.avro'') = ds"
    using assms(2) by (simp add: takeWhile_append2 list_all_iff not_digit_dot)
  then have "match_part (''part-'' @ ds @ ''.avro'') = Some ds"
    using assms(1) by (simp add: match_part_def)
  then show ?thesis by (simp add: ds)
qed

lemma matches_shape:
  assumes "list_all is_digit z" "5 \<le> length z"
  shows "matches_part5_or_more (''part-'' @ z @ ''.avro'')"
    and "matches_part5 (''part-'' @ z @ ''.avro'') \<longleftrightarrow> length z = 5"
  using assms by (auto simp: matches_part5_or_more_def matches_part5_def)

lemma str_nat_small: "n < 10 \<Longrightarrow> str_nat n = [digit_char n]"
  by (subst str_nat.simps) simp

lemma str_nat_big: "10 \<le> n \<Longrightarrow> str_nat n = str_nat (n div 10) @ [digit_char (n mod 10)]"
  by (subst str_nat.simps) simp

lemma str_nat_42: "str_nat 42 = ''42''"
  by (simp add: str_nat_small str_nat_big digit_char_def)

lemma str_nat_0: "str_nat 0 = ''0''"
  by (simp add: str_nat_small digit_char_def)

lemma str_nat_100000: "str_nat 100000 = ''100000''"
  by (simp add: str_nat_small str_nat_big digit_char_def)

lemma replicate_3: "replicate 3 x = [x, x, x]" and replicate_4: "replicate 4 x = [x, x, x, x]"
  by (simp_all add: numeral_eq_Suc)

lemma is_digit_simps:
  "is_digit (CHR ''0'')" "is_digit (CHR ''1'')" "is_digit (CHR ''2'')" "is_digit (CHR ''3'')"
  "is_digit (CHR ''4'')" "is_digit (CHR ''5'')" "is_digit (CHR ''6'')" "is_digit (CHR ''7'')"
  "is_digit (CHR ''8'')" "is_digit (CHR ''9'')" "\<not> is_digit (CHR ''.'')" "\<not> is_digit (CHR ''p'')"
  by (simp_all add: is_digit_def)

lemma search_00041: "re_search_part ''part-00041.avro'' = Some ''00041''"
  by (simp add: match_part_def is_digit_simps)

lemma search_99999: "re_search_part ''part-99999.avro'' = Some ''99999''"
  by (simp add: match_part_def is_digit_simps)

lemma search_output: "re_search_part ''output.avro'' = None"
  by (simp add: match_part_def)

text \<open>
  C7 (as amended). \<open>next_filename(None)\<close> is \<open>part-00000.avro\<close>. For a previous name
  \<open>part-NNNNN.avro\<close> with five digits the result is \<open>part-\<close>, the number NNNNN+1
  formatted with \<open>05d\<close>, and \<open>.avro\<close>. A previous name that is not empty and has no
  match of \<open>part-\d+\<close> raises \<open>ValueError\<close>. Every name produced is \<open>part-\<close>, at least
  five digits, \<open>.avro\<close>; it has exactly five digits, and so matches
  \<open>part-[0-9]{5}\.avro\<close>, exactly when its number is at most 99999.
\<close>

theorem next_filename_sequential:
  "next_filename None = Inr ''part-00000.avro''
   \<and> (length ds = 5 \<and> list_all is_digit ds \<longrightarrow>
        next_filename (Some (''part-'' @ ds @ ''.avro''))
          = Inr (''part-'' @ format_05d (int_of_digits ds + 1) @ ''.avro'')
        \<and> int_of_digits (format_05d (int_of_digits ds + 1)) = int_of_digits ds + 1)
   \<and> (p \<noteq> [] \<and> \<not> (\<exists>pre d rest. p = pre @ ''part-'' @ d # rest \<and> is_digit d) \<longrightarrow>
        next_filename (Some p) = Inl (ValueError (''Invalid filename format: '' @ p)))
   \<and> (next_filename prev = Inr f \<longrightarrow>
        (\<exists>i. f = ''part-'' @ format_05d i @ ''.avro''
             \<and> matches_part5_or_more f \<and> (matches_part5 f \<longleftrightarrow> i \<le> 99999)))"
proof (intro conjI impI)
  show "next_filename None = Inr ''part-00000.avro''"
    by (simp add: next_filename_def format_05d_def str_nat.simps [of 0] digit_char_def numeral_eq_Suc)
next
  assume a: "length ds = 5 \<and> list_all is_digit ds"
  then have "ds \<noteq> []" by auto
  with a have "re_search_part (''part-'' @ ds @ ''.avro'') = Some ds"
    using re_search_part_exact [of ds] by blast
  then show "next_filename (Some (''part-'' @ ds @ ''.avro''))
          = Inr (''part-'' @ format_05d (int_of_digits ds + 1) @ ''.avro'')"
    unfolding next_filename_def by (simp del: append.simps re_search_part.simps)
next
  show "int_of_digits (format_05d (int_of_digits ds + 1)) = int_of_digits ds + 1"
    by (rule format_05d_value)
next
  assume "p \<noteq> [] \<and> \<not> (\<exists>pre d rest. p = pre @ ''part-'' @ d # rest \<and> is_digit d)"
  then have "p \<noteq> []" "re_search_part p = None" by (simp_all add: re_search_part_None)
  then show "next_filename (Some p) = Inl (ValueError (''Invalid filename format: '' @ p))"
    by (simp add: next_filename_def)
next
  assume r: "next_filename prev = Inr f"
  then obtain i where f: "f = ''part-'' @ format_05d i @ ''.avro''"
    by (auto simp: next_filename_def split: option.splits if_splits)
  have "matches_part5_or_more f" "matches_part5 f \<longleftrightarrow> i \<le> 99999"
    unfolding f using matches_shape [OF format_05d_digits format_05d_length, of i]
    by (simp_all add: format_05d_length5)
  with f show "\<exists>i. f = ''part-'' @ format_05d i @ ''.avro''
             \<and> matches_part5_or_more f \<and> (matches_part5 f \<longleftrightarrow> i \<le> 99999)" by blast
qed

text \<open>The theorem at the previous names \<open>part-00041.avro\<close> and \<open>output.avro\<close>.\<close>

theorem next_filename_sequential_witness:
  "next_filename (Some ''part-00041.avro'') = Inr ''part-00042.avro''
   \<and> next_filename (Some ''output.avro'') = Inl (ValueError ''Invalid filename format: output.avro'')
   \<and> matches_part5 ''part-00042.avro''"
proof -
  have d: "length ''00041'' = 5 \<and> list_all is_digit ''00041''"
    by (simp add: is_digit_simps)
  have v: "format_05d (int_of_digits ''00041'' + 1) = ''00042''"
    by (simp add: format_05d_def int_of_digits_def digit_val_def str_nat_42 replicate_3)
  have n: "''output.avro'' \<noteq> [] \<and>
      \<not> (\<exists>pre d rest. ''output.avro'' = pre @ ''part-'' @ d # rest \<and> is_digit d)"
    using search_output unfolding re_search_part_None by simp
  have m: "matches_part5 ''part-00042.avro''"
    by (simp add: matches_part5_def is_digit_simps)
  show ?thesis
    using next_filename_sequential [of "''00041''" "''output.avro''" None "[]"] d v n m
    by simp
qed

text \<open>
  C7 as stated fails: after \<open>part-99999.avro\<close> the name has six digits, outside the
  grammar \<open>part-[0-9]{5}\.avro\<close>; and the empty previous name, which has no match of
  \<open>part-\d+\<close>, raises nothing.
\<close>

theorem next_filename_grammar_counterexample:
  "next_filename (Some ''part-99999.avro'') = Inr ''part-100000.avro''
   \<and> \<not> matches_part5 ''part-100000.avro''
   \<and> \<not> (\<exists>pre d rest. [] = pre @ ''part-'' @ d # rest \<and> is_digit d)
   \<and> next_filename (Some []) = Inr ''part-00000.avro''"
proof -
  have "format_05d (int_of_digits ''99999'' + 1) = ''100000''"
    by (simp add: format_05d_def int_of_digits_def digit_val_def str_nat_100000)
  then have "next_filename (Some ''part-99999.avro'') = Inr ''part-100000.avro''"
    unfolding next_filename_def by (simp add: search_99999 del: re_search_part.simps)
  moreover have "\<not> matches_part5 ''part-100000.avro''" by (simp add: matches_part5_def)
  moreover have "format_05d 0 = ''00000''"
    by (simp add: format_05d_def str_nat_0 replicate_4)
  then have "next_filename (Some []) = Inr ''part-00000.avro''"
    by (simp add: next_filename_def)
  ultimately show ?thesis by simp
qed


subsection \<open>The closed partitioned writer\<close>

lemma close_pw_closed: "current_writer (close_pw w) = None"
  by (cases "current_writer w") (simp_all add: close_pw_def close_current_def)

text \<open>
  C9. A \<open>PartitionedAvroWriter\<close> is closed when it has no current writer: so it is as
  \<open>__init__\<close> leaves it and as \<open>close\<close> leaves it. On a closed writer \<open>append\<close>,
  \<open>flush\<close> and \<open>roll\<close> raise \<open>ValueError\<close> and the state stays as it was, the files
  included; and an \<open>append\<close> that does not raise was made with a current writer open.
\<close>

theorem closed_writer_rejects:
  "(new_writer u mode sch cod fs ex = Inr w0 \<longrightarrow> current_writer w0 = None)
   \<and> current_writer (close_pw w1) = None
   \<and> (current_writer w = None \<longrightarrow>
        append_pw w d fl = (Inl (ValueError ''Writer is not initialized.''), w)
        \<and> flush_pw w = (Inl (ValueError ''Writer is not initialized.''), w)
        \<and> roll_pw w = (Inl (ValueError ''Writer is not initialized.''), w))
   \<and> (fst (append_pw w2 d2 fl2) = Inr () \<longrightarrow> current_writer w2 \<noteq> None)"
proof (intro conjI impI)
  assume "new_writer u mode sch cod fs ex = Inr w0"
  then show "current_writer w0 = None"
    by (auto simp: new_writer_def split: if_splits)
next
  show "current_writer (close_pw w1) = None" by (rule close_pw_closed)
next
  assume "current_writer w = None"
  then show "append_pw w d fl = (Inl (ValueError ''Writer is not initialized.''), w)"
    and "flush_pw w = (Inl (ValueError ''Writer is not initialized.''), w)"
    and "roll_pw w = (Inl (ValueError ''Writer is not initialized.''), w)"
    by (simp_all add: append_pw_def flush_pw_def roll_pw_def)
next
  assume "fst (append_pw w2 d2 fl2) = Inr ()"
  then show "current_writer w2 \<noteq> None"
    by (auto simp: append_pw_def split: option.splits)
qed

text \<open>The theorem at a writer that was opened, appended to and closed.\<close>

theorem closed_writer_rejects_witness:
  "new_writer ''out'' ''wb'' ''int'' ''null'' [] (map fst) = Inr example_writer
   \<and> current_writer example_writer = None
   \<and> append_pw (close_pw (snd (append_pw (snd (open_pw example_writer)) [(''id'', 1)] False)))
        [(''id'', 2)] False
      = (Inl (ValueError ''Writer is not initialized.''),
         close_pw (snd (append_pw (snd (open_pw example_writer)) [(''id'', 1)] False)))
   \<and> fst (append_pw (snd (open_pw example_writer)) [(''id'', 1)] False) = Inr ()
   \<and> current_writer (snd (open_pw example_writer)) \<noteq> None"
proof -
  have n: "new_writer ''out'' ''wb'' ''int'' ''null'' [] (map fst) = Inr example_writer"
    by (simp add: new_writer_def example_writer_def)
  have o: "next_filename None = Inr ''part-00000.avro''"
    by (simp add: next_filename_def format_05d_def str_nat_0 replicate_4)
  have a: "fst (append_pw (snd (open_pw example_writer)) [(''id'', 1)] False) = Inr ()"
    by (simp add: open_pw_def open_writer_def example_writer_def find_last_filename_def
        close_current_def o append_pw_def dfw_append_def)
  note T = closed_writer_rejects [of "''out''" "''wb''" "''int''" "''null''" "[]" "map fst"
        example_writer "snd (append_pw (snd (open_pw example_writer)) [(''id'', 1)] False)"
        "close_pw (snd (append_pw (snd (open_pw example_writer)) [(''id'', 1)] False))"
        "[(''id'', 2)]" False "snd (open_pw example_writer)" "[(''id'', 1)]" False]
  from T n have c0: "current_writer example_writer = None" by blast
  from T have c1: "current_writer
      (close_pw (snd (append_pw (snd (open_pw example_writer)) [(''id'', 1)] False))) = None"
    by blast
  from T c1 have r: "append_pw
       (close_pw (snd (append_pw (snd (open_pw example_writer)) [(''id'', 1)] False)))
        [(''id'', 2)] False
      = (Inl (ValueError ''Writer is not initialized.''),
         close_pw (snd (append_pw (snd (open_pw example_writer)) [(''id'', 1)] False)))"
    by blast
  have o1: "fst (append_pw (snd (open_pw example_writer)) [(''id'', 1)] False) = Inr () \<longrightarrow>
      current_writer (snd (open_pw example_writer)) \<noteq> None"
    using T by (elim conjE)
  with a have c2: "current_writer (snd (open_pw example_writer)) \<noteq> None" by blast
  from n c0 r a c2 show ?thesis by blast
qed

subsection \<open>Schema evolution: making a field optional\<close>

text \<open>
  C2. Changing the one field of a record from a primitive type \<open>T\<close> to the union
  \<open>[null, T]\<close> is rejected by \<open>validate_avro_schema_evolution\<close>, whatever the names, the
  type and the default are: the test for a null branch asks for a \<open>RecordSchema\<close> named
  \<open>null\<close>, and the null type is a primitive schema.
\<close>

theorem optional_field_rejected:
  "validate_avro_schema_evolution
     (RecordSchema r [Field x (PrimitiveSchema t) d])
     (RecordSchema r [Field x (UnionSchema [PrimitiveSchema ''null'', PrimitiveSchema t]) d])
   = Inl (ValueError (''Field '' @ x @ '' type has changed.''))"
  by (cases d) (simp_all add: validate_avro_schema_evolution_def check_new_field_def)

text \<open>What the test accepts instead: a union of two branches of which one is a record
  that is named \<open>null\<close>.\<close>

lemma record_named_null_accepted:
  "validate_avro_schema_evolution
     (RecordSchema r [Field x (PrimitiveSchema t) d])
     (RecordSchema r [Field x (UnionSchema [RecordSchema ''null'' [], PrimitiveSchema t]) d])
   = Inr ()"
  by (cases d) (simp_all add: validate_avro_schema_evolution_def check_new_field_def dict_update_def)

subsection \<open>The external merge sort\<close>

lemma min_head_None: "min_head key its = None \<longleftrightarrow> (\<forall>it \<in> set its. it = [])"
  by (induction its) (auto split: option.splits if_splits)

lemma merge_by_heads_None: "min_head key its = None \<Longrightarrow> merge_by_heads key its = []"
  by (subst merge_by_heads.simps) simp

lemma merge_by_heads_Some:
  "min_head key its = Some i \<Longrightarrow>
     merge_by_heads key its = hd (its ! i) # merge_by_heads key (its[i := tl (its ! i)])"
  by (subst merge_by_heads.simps) simp

lemma merge2_Nil2 [simp]: "merge2 key xs [] = xs"
  by (cases xs) simp_all

lemma merge_by_heads_Cons:
  "merge_by_heads key (xs # rest) = merge2 key xs (merge_by_heads key rest)"
proof (induction "length xs + sum_list (map length rest)" arbitrary: xs rest rule: less_induct)
  case less
  show ?case
  proof (cases "min_head key rest")
    case None
    then have r: "merge_by_heads key rest = []" by (rule merge_by_heads_None)
    show ?thesis
    proof (cases xs)
      case Nil
      with None have "min_head key (xs # rest) = None" by simp
      then have "merge_by_heads key (xs # rest) = []" by (rule merge_by_heads_None)
      with r Nil show ?thesis by simp
    next
      case (Cons x xs')
      with None have "min_head key (xs # rest) = Some 0" by simp
      then have "merge_by_heads key (xs # rest) = x # merge_by_heads key (xs' # rest)"
        using Cons by (simp add: merge_by_heads_Some)
      also have "merge_by_heads key (xs' # rest) = merge2 key xs' (merge_by_heads key rest)"
        using less [of xs' rest] Cons by simp
      finally show ?thesis using r Cons by simp
    qed
  next
    case (Some j)
    then have j: "j < length rest" "rest ! j \<noteq> []" using min_head_Some by blast+
    define y where "y = hd (rest ! j)"
    define rest' where "rest' = rest[j := tl (rest ! j)]"
    have r: "merge_by_heads key rest = y # merge_by_heads key rest'"
      using Some by (simp add: merge_by_heads_Some y_def rest'_def)
    have dec: "sum_list (map length rest') < sum_list (map length rest)"
      unfolding rest'_def using j by (rule sum_length_update)
    show ?thesis
    proof (cases "xs \<noteq> [] \<and> key (hd xs) \<le> key y")
      case True
      then obtain x xs' where c: "xs = x # xs'" by (cases xs) auto
      from True Some have "min_head key (xs # rest) = Some 0" by (simp add: y_def)
      then have "merge_by_heads key (xs # rest) = x # merge_by_heads key (xs' # rest)"
        using c by (simp add: merge_by_heads_Some)
      also have "merge_by_heads key (xs' # rest) = merge2 key xs' (merge_by_heads key rest)"
        using less [of xs' rest] c by simp
      finally show ?thesis using r c True by simp
    next
      case False
      with Some have "min_head key (xs # rest) = Some (Suc j)" by (auto simp: y_def)
      then have "merge_by_heads key (xs # rest) = y # merge_by_heads key (xs # rest')"
        by (simp add: merge_by_heads_Some y_def rest'_def)
      also have "merge_by_heads key (xs # rest') = merge2 key xs (merge_by_heads key rest')"
        using less [of xs rest'] dec by simp
      finally show ?thesis using r False by (cases xs) auto
    qed
  qed
qed

lemma merge_by_heads_Nil: "merge_by_heads key [] = []"
  by (simp add: merge_by_heads_None)

lemma merge_by_heads_foldr: "merge_by_heads key its = foldr (merge2 key) its []"
  by (induction its) (simp_all add: merge_by_heads_Nil merge_by_heads_Cons)

lemma mset_merge2: "mset (merge2 key xs ys) = mset xs + mset ys"
  by (induction key xs ys rule: merge2.induct) simp_all

lemma set_merge2: "set (merge2 key xs ys) = set xs \<union> set ys"
  by (induction key xs ys rule: merge2.induct) auto

lemma sorted_merge2:
  "sorted (map key xs) \<Longrightarrow> sorted (map key ys) \<Longrightarrow> sorted (map key (merge2 key xs ys))"
  by (induction key xs ys rule: merge2.induct) (auto simp: set_merge2)

lemma filter_merge2:
  "sorted (map key xs) \<Longrightarrow> sorted (map key ys) \<Longrightarrow>
     filter (\<lambda>r. key r = k) (merge2 key xs ys)
       = filter (\<lambda>r. key r = k) xs @ filter (\<lambda>r. key r = k) ys"
proof (induction key xs ys rule: merge2.induct)
  case (1 key ys)
  then show ?case by simp
next
  case (2 key v va)
  then show ?case by simp
next
  case (3 key x xs y ys)
  show ?case
  proof (cases "key x \<le> key y")
    case True
    with 3 show ?thesis by simp
  next
    case False
    then have lt: "key y < key x" by simp
    have "\<forall>r \<in> set (x # xs). key y < key r"
      using 3(3) lt by (auto simp: less_le_trans)
    then have "key y = k \<Longrightarrow> filter (\<lambda>r. key r = k) (x # xs) = []"
      by (auto simp: filter_empty_conv)
    with 3 False show ?thesis by auto
  qed
qed

lemma mset_merge_by_heads: "mset (merge_by_heads key its) = mset (concat its)"
  by (induction its) (simp_all add: merge_by_heads_Nil merge_by_heads_Cons mset_merge2)

lemma sorted_merge_by_heads:
  "(\<forall>it \<in> set its. sorted (map key it)) \<Longrightarrow> sorted (map key (merge_by_heads key its))"
  by (induction its) (simp_all add: merge_by_heads_Nil merge_by_heads_Cons sorted_merge2)

lemma filter_merge_by_heads:
  "(\<forall>it \<in> set its. sorted (map key it)) \<Longrightarrow>
     filter (\<lambda>r. key r = k) (merge_by_heads key its)
       = concat (map (filter (\<lambda>r. key r = k)) its)"
  by (induction its)
    (simp_all add: merge_by_heads_Nil merge_by_heads_Cons filter_merge2 sorted_merge_by_heads)

lemma mset_sorted_py: "mset (sorted_py key reverse xs) = mset xs"
  by (simp add: sorted_py_def)

lemma sorted_sorted_py: "sorted (map key (sorted_py key False xs))"
  by (simp add: sorted_py_def)

lemma None_neq: "(None \<noteq> x) = (\<exists>y. x = Some y)"
  by (cases x) auto

lemma comparable_no_None: "None \<notin> set a \<Longrightarrow> None \<notin> set b \<Longrightarrow> comparable a b"
  by (induction a b rule: comparable.induct) (auto simp: None_neq)

lemma all_comparable_no_None: "\<forall>k \<in> set ks. None \<notin> set k \<Longrightarrow> all_comparable ks"
  by (auto simp: all_comparable_def list_all_iff comparable_no_None)

lemma sort_key_fn_no_None:
  "None \<notin> set (sort_key_fn sort_fields r) \<longleftrightarrow> (\<forall>f \<in> set sort_fields. map_of r f \<noteq> None)"
proof -
  have "None \<in> map_of r ` set sort_fields \<longleftrightarrow> (\<exists>f \<in> set sort_fields. map_of r f = None)"
    by (metis (mono_tags, lifting) image_iff)
  then show ?thesis by (simp add: sort_key_fn_def)
qed

lemma sort_and_write_batch_ok:
  "\<forall>r \<in> set records. None \<notin> set (key r) \<Longrightarrow>
     sort_and_write_batch tmp batch_id records key reverse
       = Inr (tmp @ [(batch_id, sorted_py key reverse records)])"
  by (simp add: sort_and_write_batch_def all_comparable_no_None)

lemma sort_and_write_batch_Inr:
  "sort_and_write_batch tmp batch_id records key reverse = Inr T \<Longrightarrow>
     T = tmp @ [(batch_id, sorted_py key reverse records)]"
  by (auto simp: sort_and_write_batch_def split: if_splits)

lemma write_batches_ok:
  "\<forall>r \<in> set input \<union> set batch. None \<notin> set (key r) \<Longrightarrow>
     \<exists>T. write_batches key reverse batch_size input batch batch_id tmp = Inr T"
proof (induction key reverse batch_size input batch batch_id tmp rule: write_batches.induct)
  case (1 key reverse batch_size batch batch_id tmp)
  then show ?case by (simp add: sort_and_write_batch_ok)
next
  case (2 key reverse batch_size r rest batch batch_id tmp)
  show ?case
  proof (cases "batch_size \<le> int (length (batch @ [r]))")
    case True
    have s: "sort_and_write_batch tmp batch_id (batch @ [r]) key reverse
        = Inr (tmp @ [(batch_id, sorted_py key reverse (batch @ [r]))])"
      using 2(3) by (intro sort_and_write_batch_ok) auto
    have "\<exists>T. write_batches key reverse batch_size rest [] (batch_id + 1)
        (tmp @ [(batch_id, sorted_py key reverse (batch @ [r]))]) = Inr T"
      using True s 2(3) by (intro 2(1)) auto
    with True s show ?thesis by simp
  next
    case False
    have "\<exists>T. write_batches key reverse batch_size rest (batch @ [r]) batch_id tmp = Inr T"
      using False 2(3) by (intro 2(2)) auto
    with False show ?thesis by simp
  qed
qed

lemma mset_write_batches:
  "write_batches key reverse batch_size input batch batch_id tmp = Inr T \<Longrightarrow>
     mset (concat (map snd T)) = mset (concat (map snd tmp)) + mset batch + mset input"
proof (induction key reverse batch_size input batch batch_id tmp rule: write_batches.induct)
  case (1 key reverse batch_size batch batch_id tmp)
  then show ?case
    by (auto simp: mset_sorted_py dest!: sort_and_write_batch_Inr split: if_splits)
next
  case (2 key reverse batch_size r rest batch batch_id tmp)
  show ?case
  proof (cases "batch_size \<le> int (length (batch @ [r]))")
    case True
    with 2(3) obtain tmp' where
      s: "sort_and_write_batch tmp batch_id (batch @ [r]) key reverse = Inr tmp'" and
      w: "write_batches key reverse batch_size rest [] (batch_id + 1) tmp' = Inr T"
      by (auto split: sum.splits)
    have "mset (concat (map snd T)) = mset (concat (map snd tmp')) + mset [] + mset rest"
      using True s w by (rule 2(1))
    moreover have "tmp' = tmp @ [(batch_id, sorted_py key reverse (batch @ [r]))]"
      using s by (rule sort_and_write_batch_Inr)
    ultimately show ?thesis by (simp add: mset_sorted_py)
  next
    case False
    with 2(3) have "write_batches key reverse batch_size rest (batch @ [r]) batch_id tmp = Inr T"
      by simp
    with False have "mset (concat (map snd T))
        = mset (concat (map snd tmp)) + mset (batch @ [r]) + mset rest"
      by (rule 2(2))
    then show ?thesis by simp
  qed
qed

lemma sorted_write_batches:
  "write_batches key False batch_size input batch batch_id tmp = Inr T \<Longrightarrow>
     \<forall>e \<in> set tmp. sorted (map key (snd e)) \<Longrightarrow>
     \<forall>e \<in> set T. sorted (map key (snd e))"
proof (induction key "False" batch_size input batch batch_id tmp rule: write_batches.induct)
  case (1 key batch_size batch batch_id tmp)
  then show ?case
    by (auto simp: sorted_sorted_py dest!: sort_and_write_batch_Inr split: if_splits)
next
  case (2 key batch_size r rest batch batch_id tmp)
  show ?case
  proof (cases "batch_size \<le> int (length (batch @ [r]))")
    case True
    with 2(3) obtain tmp' where
      s: "sort_and_write_batch tmp batch_id (batch @ [r]) key False = Inr tmp'" and
      w: "write_batches key False batch_size rest [] (batch_id + 1) tmp' = Inr T"
      by (auto split: sum.splits)
    have "tmp' = tmp @ [(batch_id, sorted_py key False (batch @ [r]))]"
      using s by (rule sort_and_write_batch_Inr)
    then have "\<forall>e \<in> set tmp'. sorted (map key (snd e))"
      using 2(4) by (auto simp: sorted_sorted_py)
    with True s w show ?thesis by (intro 2(1))
  next
    case False
    with 2(3) have "write_batches key False batch_size rest (batch @ [r]) batch_id tmp = Inr T"
      by simp
    with False 2(4) show ?thesis by (intro 2(2))
  qed
qed

lemma mset_concat_snd:
  "mset (concat (map snd zs)) = sum_mset (image_mset (\<lambda>e. mset (snd e)) (mset zs))"
  by (induction zs) simp_all

lemma mset_concat_perm:
  "mset xs = mset ys \<Longrightarrow> mset (concat (map snd xs)) = mset (concat (map snd ys))"
  by (simp add: mset_concat_snd)

lemma set_heads: "set (heads its) \<subseteq> set (concat its)"
  by (auto simp: heads_def)

lemma heads_comparable_no_None:
  "\<forall>x \<in> set (concat its). None \<notin> set (key x) \<Longrightarrow> heads_comparable key its"
proof (induction key its rule: heads_comparable.induct)
  case (1 key its)
  have a: "all_comparable (map key (heads its))"
    using 1(2) set_heads [of its] by (intro all_comparable_no_None) auto
  show ?case
  proof (cases "min_head key its")
    case None
    with a show ?thesis by (subst heads_comparable.simps) simp
  next
    case (Some i)
    have "set (tl (its ! i)) \<subseteq> set (concat its)"
    proof -
      have "i < length its" using Some min_head_Some by blast
      then have "its ! i \<in> set its" by simp
      then have "set (its ! i) \<subseteq> set (concat its)" by auto
      moreover have "set (tl (its ! i)) \<subseteq> set (its ! i)" by (cases "its ! i") auto
      ultimately show ?thesis by blast
    qed
    moreover have "set (its[i := tl (its ! i)]) \<subseteq> insert (tl (its ! i)) (set its)"
      by (rule set_update_subset_insert)
    ultimately have "set (concat (its[i := tl (its ! i)])) \<subseteq> set (concat its)" by auto
    with 1(2) have "\<forall>x \<in> set (concat (its[i := tl (its ! i)])). None \<notin> set (key x)" by blast
    with a Some have "heads_comparable key (its[i := tl (its ! i)])" by (intro 1(1))
    with a Some show ?thesis by (subst heads_comparable.simps) simp
  qed
qed

lemma heapq_merge_no_None:
  "\<forall>x \<in> set (concat its). None \<notin> set (key x) \<Longrightarrow>
     heapq_merge key its = Inr (merge_by_heads key its)"
  by (simp add: heapq_merge_def heads_comparable_no_None)

text \<open>When every record has every sort field and the directory listing is a permutation of
  the spill files, no comparison raises: the spill files are written, each holds its
  batch, and the output is the merge of the listed files.\<close>

lemma filesort_no_None:
  assumes "\<forall>r \<in> set input. \<forall>f \<in> set sort_fields. map_of r f \<noteq> None"
    and "\<And>tmp. mset (listdir tmp) = mset tmp"
  obtains tmp where
    "write_batches (sort_key_fn sort_fields) reverse batch_size input [] 0 [] = Inr tmp"
    "filesort listdir input sort_fields reverse batch_size
       = Inr (merge_by_heads (sort_key_fn sort_fields) (map snd (listdir tmp)))"
    "mset (concat (map snd (listdir tmp))) = mset input"
proof -
  let ?key = "sort_key_fn sort_fields"
  have nf: "\<forall>r \<in> set input. None \<notin> set (?key r)"
    using assms(1) by (simp add: sort_key_fn_no_None)
  then obtain tmp where w: "write_batches ?key reverse batch_size input [] 0 [] = Inr tmp"
    using write_batches_ok [of input "[]" ?key reverse batch_size 0 "[]"] by auto
  have "mset (concat (map snd tmp)) = mset input"
    using mset_write_batches [OF w] by simp
  then have m: "mset (concat (map snd (listdir tmp))) = mset input"
    using mset_concat_perm [OF assms(2) [of tmp]] by simp
  then have "set (concat (map snd (listdir tmp))) = set input" by (rule mset_eq_setD)
  with nf have "\<forall>x \<in> set (concat (map snd (listdir tmp))). None \<notin> set (?key x)" by simp
  then have "heapq_merge ?key (map snd (listdir tmp))
      = Inr (merge_by_heads ?key (map snd (listdir tmp)))"
    by (rule heapq_merge_no_None)
  with w have "filesort listdir input sort_fields reverse batch_size
      = Inr (merge_by_heads ?key (map snd (listdir tmp)))"
    by (simp add: filesort_def)
  with w m show thesis by (intro that [of tmp])
qed

text \<open>
  The ascending half of C1. When every record has every sort field, \<open>os.listdir\<close> lists
  exactly the spill files, in whatever order, and \<open>reverse\<close> is not set, the sorter
  returns an output that is sorted by the projected key and has the records of the input,
  each as often as the input has it.
\<close>

theorem filesort_ascending:
  assumes "\<forall>r \<in> set input. \<forall>f \<in> set sort_fields. map_of r f \<noteq> None"
    and "\<And>tmp. mset (listdir tmp) = mset tmp"
  shows "\<exists>out. filesort listdir input sort_fields False batch_size = Inr out
    \<and> sorted (map (sort_key_fn sort_fields) out) \<and> mset out = mset input"
proof -
  let ?key = "sort_key_fn sort_fields"
  from assms obtain tmp where
    w: "write_batches ?key False batch_size input [] 0 [] = Inr tmp" and
    f: "filesort listdir input sort_fields False batch_size
        = Inr (merge_by_heads ?key (map snd (listdir tmp)))" and
    m: "mset (concat (map snd (listdir tmp))) = mset input"
    by (rule filesort_no_None)
  have s: "set (listdir tmp) = set tmp" using assms(2) [of tmp] by (rule mset_eq_setD)
  have "\<forall>e \<in> set tmp. sorted (map ?key (snd e))"
    using w by (rule sorted_write_batches) simp
  with s have "\<forall>it \<in> set (map snd (listdir tmp)). sorted (map ?key it)" by auto
  then have "sorted (map ?key (merge_by_heads ?key (map snd (listdir tmp))))"
    by (rule sorted_merge_by_heads)
  moreover have "mset (merge_by_heads ?key (map snd (listdir tmp))) = mset input"
    using m by (simp add: mset_merge_by_heads)
  ultimately show ?thesis using f by blast
qed

text \<open>The theorem at three records, batches of two and the listing that starts with the
  newest file.\<close>

theorem filesort_ascending_witness:
  "\<exists>out. filesort rev [[(''id'', 3)], [(''id'', 2)], [(''id'', 1)]] [''id''] False 2 = Inr out
     \<and> sorted (map (sort_key_fn [''id'']) out)
     \<and> mset out = mset [[(''id'', 3)], [(''id'', 2)], [(''id'', 1)]]"
  by (rule filesort_ascending) simp_all

text \<open>
  C1. With \<open>reverse\<close> set and more than one batch the output is not descending: each spill
  file is sorted in descending order, and \<open>heapq.merge\<close>, called without \<open>reverse\<close>, merges
  them as if they were ascending. Two records with the keys 1 and 2 and a batch size of 1
  come out as 1, 2, in either order of the directory listing.
\<close>

theorem filesort_reverse_two_batches:
  "filesort id [[(''id'', 1)], [(''id'', 2)]] [''id''] True 1
     = Inr [[(''id'', 1)], [(''id'', 2)]]
   \<and> filesort rev [[(''id'', 1)], [(''id'', 2)]] [''id''] True 1
     = Inr [[(''id'', 1)], [(''id'', 2)]]
   \<and> \<not> sorted (rev (map (sort_key_fn [''id'']) [[(''id'', 1)], [(''id'', 2)]]))"
proof -
  let ?key = "sort_key_fn [''id'']"
  have w: "write_batches ?key True 1 [[(''id'', 1)], [(''id'', 2)]] [] 0 []
      = Inr [(0, [[(''id'', 1)]]), (1, [[(''id'', 2)]])]"
    by (simp add: sort_and_write_batch_def all_comparable_def sorted_py_def sort_key_fn_def)
  have a: "heapq_merge ?key [[[(''id'', 1)]], [[(''id'', 2)]]]
      = Inr [[(''id'', 1)], [(''id'', 2)]]"
    by (subst heapq_merge_no_None) (simp_all add: sort_key_fn_def merge_by_heads_foldr)
  have b: "heapq_merge ?key [[[(''id'', 2)]], [[(''id'', 1)]]]
      = Inr [[(''id'', 1)], [(''id'', 2)]]"
    by (subst heapq_merge_no_None) (simp_all add: sort_key_fn_def merge_by_heads_foldr)
  have c: "\<not> sorted (rev (map ?key [[(''id'', 1)], [(''id'', 2)]]))"
    by (simp add: sort_key_fn_def)
  from w a b c show ?thesis by (simp add: filesort_def)
qed

text \<open>
  C8 (as amended). When \<open>reverse\<close> is not set, every record has an integer value for
  every sort field and \<open>os.listdir\<close> lists exactly the spill files, the sorter returns an
  output in which the records of a given key are the records of that key of the first
  listed spill file, then those of the second listed, and so on: of two records with
  equal keys from different spill files, the one whose file comes earlier in the
  directory listing is written first.
\<close>

theorem filesort_ties_in_listing_order:
  assumes "\<forall>r \<in> set input. \<forall>f \<in> set sort_fields. map_of r f \<noteq> None"
    and "\<And>tmp. mset (listdir tmp) = mset tmp"
  shows "\<exists>tmp out.
      write_batches (sort_key_fn sort_fields) False batch_size input [] 0 [] = Inr tmp
    \<and> filesort listdir input sort_fields False batch_size = Inr out
    \<and> filter (\<lambda>r. sort_key_fn sort_fields r = k) out
        = concat (map (\<lambda>e. filter (\<lambda>r. sort_key_fn sort_fields r = k) (snd e)) (listdir tmp))"
proof -
  let ?key = "sort_key_fn sort_fields"
  from assms obtain tmp where
    w: "write_batches ?key False batch_size input [] 0 [] = Inr tmp" and
    f: "filesort listdir input sort_fields False batch_size
        = Inr (merge_by_heads ?key (map snd (listdir tmp)))"
    by (rule filesort_no_None)
  have s: "set (listdir tmp) = set tmp" using assms(2) [of tmp] by (rule mset_eq_setD)
  have "\<forall>e \<in> set tmp. sorted (map ?key (snd e))"
    using w by (rule sorted_write_batches) simp
  with s have "\<forall>it \<in> set (map snd (listdir tmp)). sorted (map ?key it)" by auto
  then have "filter (\<lambda>r. ?key r = k) (merge_by_heads ?key (map snd (listdir tmp)))
      = concat (map (filter (\<lambda>r. ?key r = k)) (map snd (listdir tmp)))"
    by (rule filter_merge_by_heads)
  then have "filter (\<lambda>r. ?key r = k) (merge_by_heads ?key (map snd (listdir tmp)))
      = concat (map (\<lambda>e. filter (\<lambda>r. ?key r = k) (snd e)) (listdir tmp))"
    by (simp add: comp_def)
  with w f show ?thesis by blast
qed

text \<open>The theorem at two records of equal keys, batches of one and the listing that
  starts with the newest file.\<close>

theorem filesort_ties_in_listing_order_witness:
  "\<exists>out. filesort rev [[(''k'', 1), (''id'', 0)], [(''k'', 1), (''id'', 1)]] [''k''] False 1
       = Inr out
     \<and> filter (\<lambda>r. sort_key_fn [''k''] r = [Some 1]) out
       = [[(''k'', 1), (''id'', 1)], [(''k'', 1), (''id'', 0)]]"
proof -
  let ?input = "[[(''k'', 1), (''id'', 0)], [(''k'', 1), (''id'', 1)]]"
  have n: "\<forall>r \<in> set ?input. \<forall>f \<in> set [''k'']. map_of r f \<noteq> None" by simp
  have p: "\<And>tmp :: tmpdir. mset (rev tmp) = mset tmp" by simp
  obtain tmp out where
    w: "write_batches (sort_key_fn [''k'']) False 1 ?input [] 0 [] = Inr tmp" and
    f: "filesort rev ?input [''k''] False 1 = Inr out" and
    e: "filter (\<lambda>r. sort_key_fn [''k''] r = [Some 1]) out
        = concat (map (\<lambda>e. filter (\<lambda>r. sort_key_fn [''k''] r = [Some 1]) (snd e)) (rev tmp))"
    using filesort_ties_in_listing_order [OF n p, of 1 "[Some 1]"] by blast
  have "write_batches (sort_key_fn [''k'']) False 1 ?input [] 0 []
      = Inr [(0, [[(''k'', 1), (''id'', 0)]]), (1, [[(''k'', 1), (''id'', 1)]])]"
    by (simp add: sort_and_write_batch_def all_comparable_def sorted_py_def sort_key_fn_def)
  with w have "tmp = [(0, [[(''k'', 1), (''id'', 0)]]), (1, [[(''k'', 1), (''id'', 1)]])]"
    by simp
  with e have "filter (\<lambda>r. sort_key_fn [''k''] r = [Some 1]) out
      = [[(''k'', 1), (''id'', 1)], [(''k'', 1), (''id'', 0)]]"
    by (simp add: sort_key_fn_def)
  with f show ?thesis by blast
qed

text \<open>
  C8 as stated fails: the order of the iterators is the order of the directory listing,
  not of the batches. Listed newest first, the record of the second batch is written
  before the record of the first batch that has the same key.
\<close>

theorem filesort_ties_counterexample:
  "filesort rev [[(''k'', 1), (''id'', 0)], [(''k'', 1), (''id'', 1)]] [''k''] False 1
   = Inr [[(''k'', 1), (''id'', 1)], [(''k'', 1), (''id'', 0)]]"
proof -
  let ?key = "sort_key_fn [''k'']"
  have w: "write_batches ?key False 1 [[(''k'', 1), (''id'', 0)], [(''k'', 1), (''id'', 1)]] [] 0 []
      = Inr [(0, [[(''k'', 1), (''id'', 0)]]), (1, [[(''k'', 1), (''id'', 1)]])]"
    by (simp add: sort_and_write_batch_def all_comparable_def sorted_py_def sort_key_fn_def)
  have a: "heapq_merge ?key [[[(''k'', 1), (''id'', 1)]], [[(''k'', 1), (''id'', 0)]]]
      = Inr [[(''k'', 1), (''id'', 1)], [(''k'', 1), (''id'', 0)]]"
    by (subst heapq_merge_no_None) (simp_all add: sort_key_fn_def merge_by_heads_foldr)
  from w a show ?thesis by (simp add: filesort_def)
qed

subsection \<open>The deferred writer\<close>

lemma run_snoc: "run (evs @ [e]) s = step e (run evs s)"
  by (simp add: run_def)

lemma run_append: "run (evs @ evs') s = run evs' (run evs s)"
  by (simp add: run_def)

lemma appends_append: "appends (evs @ evs') = appends evs @ appends evs'"
  by (induction evs rule: appends.induct) simp_all

lemma stop_after_appends_snoc:
  assumes "stop_after_appends (evs @ [e])"
  shows "stop_after_appends evs" and "Stop \<in> set evs \<Longrightarrow> appends [e] = []"
proof -
  show "stop_after_appends evs"
  proof (cases "Stop \<in> set evs")
    case True
    then have "dropWhile (\<lambda>e. e \<noteq> Stop) (evs @ [e]) = dropWhile (\<lambda>e. e \<noteq> Stop) evs @ [e]"
      by (simp add: dropWhile_append1)
    with assms show ?thesis by (simp add: stop_after_appends_def appends_append)
  next
    case False
    then have "dropWhile (\<lambda>e. e \<noteq> Stop) evs = []" by (auto simp: dropWhile_eq_Nil_conv)
    then show ?thesis by (simp only: stop_after_appends_def appends.simps)
  qed
next
  assume "Stop \<in> set evs"
  then have "dropWhile (\<lambda>e. e \<noteq> Stop) (evs @ [e]) = dropWhile (\<lambda>e. e \<noteq> Stop) evs @ [e]"
    by (simp add: dropWhile_append1)
  with assms show "appends [e] = []" by (simp add: stop_after_appends_def appends_append)
qed

lemma inv_initial: "writer_inv [] initial_writer"
  by (simp add: writer_inv_def initial_writer_def)

lemma inv_step:
  assumes "writer_inv evs s" "Stop \<in> set evs \<Longrightarrow> appends [e] = []"
  shows "writer_inv (evs @ [e]) (step e s)"
proof (cases e)
  case (Append d)
  with assms(2) have "Stop \<notin> set evs" by auto
  with assms(1) Append show ?thesis
    by (auto simp: writer_inv_def appends_append)
next
  case Stop
  with assms(1) show ?thesis by (auto simp: writer_inv_def appends_append)
next
  case Worker
  show ?thesis
  proof (cases "worker s")
    case CheckDone
    with assms(1) Worker show ?thesis by (auto simp: writer_inv_def appends_append)
  next
    case CheckEmpty
    with assms(1) Worker show ?thesis by (auto simp: writer_inv_def appends_append)
  next
    case Get
    with assms(1) Worker show ?thesis
      by (cases "writer_queue s") (auto simp: writer_inv_def appends_append)
  next
    case Exited
    with assms(1) Worker show ?thesis by (auto simp: writer_inv_def appends_append)
  qed
qed

lemma inv_run: "stop_after_appends evs \<Longrightarrow> writer_inv evs (run evs initial_writer)"
proof (induction evs rule: rev_induct)
  case Nil
  show ?case by (simp add: run_def inv_initial)
next
  case (snoc e evs)
  from snoc.prems have "stop_after_appends evs" and "Stop \<in> set evs \<Longrightarrow> appends [e] = []"
    by (rule stop_after_appends_snoc)+
  with snoc.IH show ?case by (simp add: run_snoc inv_step)
qed

lemma exited_stays: "worker s = Exited \<Longrightarrow> worker (run (replicate k Worker) s) = Exited"
  by (induction k arbitrary: s) (simp_all add: run_def)

lemma three_steps:
  assumes "writer_thread_done s" "writer_queue s = d # q" "worker s \<noteq> Exited"
  shows "writer_thread_done (run [Worker, Worker, Worker] s)
    \<and> writer_queue (run [Worker, Worker, Worker] s) = q"
  using assms by (cases "worker s"; cases q) (simp_all add: run_def)

lemma worker_exits:
  "writer_thread_done s \<Longrightarrow>
     worker (run (replicate (3 * length (writer_queue s) + 3) Worker) s) = Exited"
proof (induction "length (writer_queue s)" arbitrary: s)
  case 0
  then have q: "writer_queue s = []" by simp
  have r: "replicate (3 * length (writer_queue s) + 3) Worker = [Worker, Worker, Worker]"
    using q by (simp add: numeral_eq_Suc)
  show ?case unfolding r using q 0(2)
    by (cases "worker s") (simp_all add: run_def)
next
  case (Suc n)
  then obtain d q where q: "writer_queue s = d # q" by (cases "writer_queue s") auto
  have r: "replicate (3 * length (writer_queue s) + 3) Worker
      = [Worker, Worker, Worker] @ replicate (3 * length q + 3) Worker"
    using q by (simp add: numeral_eq_Suc)
  show ?case
  proof (cases "worker s = Exited")
    case True
    then show ?thesis by (rule exited_stays)
  next
    case False
    let ?s' = "run [Worker, Worker, Worker] s"
    have t: "writer_thread_done ?s' \<and> writer_queue ?s' = q"
      using Suc.prems q False by (rule three_steps)
    then have "n = length (writer_queue ?s')" using Suc.hyps(2) q by simp
    then have "worker (run (replicate (3 * length (writer_queue ?s') + 3) Worker) ?s') = Exited"
      using t by (intro Suc.hyps(1)) simp_all
    then show ?thesis unfolding r run_append using t by simp
  qed
qed

text \<open>
  C3 (as amended). In every schedule in which no \<open>append\<close> comes after \<open>stop\<close>, once the
  worker is past its loop the wrapped writer's \<open>append\<close> has been called once, in the
  order of the appends, for every appended record that is truthy, and for no other. And
  the worker does get past its loop: after \<open>stop\<close>, three steps of the worker for every
  queued record and three more suffice, so \<open>join\<close> returns.
\<close>

theorem clean_shutdown_appends_truthy:
  assumes "stop_after_appends evs"
  shows "(worker (run evs initial_writer) = Exited \<longrightarrow>
            appended (run evs initial_writer) = filter truthy (appends evs))
    \<and> (Stop \<in> set evs \<longrightarrow>
          worker (run (evs @ replicate (3 * length (writer_queue (run evs initial_writer)) + 3) Worker)
                    initial_writer) = Exited)"
proof (intro conjI impI)
  have i: "writer_inv evs (run evs initial_writer)" using assms by (rule inv_run)
  {
    assume "worker (run evs initial_writer) = Exited"
    with i show "appended (run evs initial_writer) = filter truthy (appends evs)"
      by (auto simp: writer_inv_def)
  }
  {
    assume "Stop \<in> set evs"
    with i have "writer_thread_done (run evs initial_writer)" by (simp add: writer_inv_def)
    then show "worker (run (evs @ replicate (3 * length (writer_queue (run evs initial_writer)) + 3) Worker)
                    initial_writer) = Exited"
      unfolding run_append by (rule worker_exits)
  }
qed

text \<open>The theorem at a schedule that appends a record, an empty record and, while the
  worker runs, a third record, then stops.\<close>

theorem clean_shutdown_appends_truthy_witness:
  "worker (run ([Append [(''id'', 1)], Append [], Worker, Worker, Append [(''id'', 2)], Stop]
       @ replicate 9 Worker) initial_writer) = Exited
   \<and> appended (run ([Append [(''id'', 1)], Append [], Worker, Worker, Append [(''id'', 2)], Stop]
       @ replicate 9 Worker) initial_writer) = [[(''id'', 1)], [(''id'', 2)]]"
proof -
  let ?evs = "[Append [(''id'', 1)], Append [], Worker, Worker, Append [(''id'', 2)], Stop]"
  have c: "stop_after_appends ?evs" by (simp add: stop_after_appends_def)
  have q: "3 * length (writer_queue (run ?evs initial_writer)) + 3 = 9"
    by (simp add: run_def initial_writer_def truthy_def)
  have s: "Stop \<in> set ?evs" by simp
  have e: "worker (run (?evs @ replicate 9 Worker) initial_writer) = Exited"
    using clean_shutdown_appends_truthy [OF c] s unfolding q by blast
  have c': "stop_after_appends (?evs @ replicate 9 Worker)"
    by (simp add: stop_after_appends_def numeral_eq_Suc)
  have "appended (run (?evs @ replicate 9 Worker) initial_writer)
      = filter truthy (appends (?evs @ replicate 9 Worker))"
    using clean_shutdown_appends_truthy [OF c'] e by blast
  then have "appended (run (?evs @ replicate 9 Worker) initial_writer)
      = [[(''id'', 1)], [(''id'', 2)]]"
    by (simp add: truthy_def numeral_eq_Suc)
  with e show ?thesis by blast
qed

text \<open>
  C3 as stated fails: \<open>if datum:\<close> drops a record that is falsy. The empty record is
  appended before \<open>stop\<close>, the worker takes it from the queue and leaves its loop, and the
  wrapped writer's \<open>append\<close> was never called.
\<close>

theorem falsy_datum_dropped_counterexample:
  "stop_after_appends [Append [], Stop, Worker, Worker, Worker, Worker, Worker]
   \<and> worker (run [Append [], Stop, Worker, Worker, Worker, Worker, Worker] initial_writer) = Exited
   \<and> appends [Append [], Stop, Worker, Worker, Worker, Worker, Worker] = [[]]
   \<and> appended (run [Append [], Stop, Worker, Worker, Worker, Worker, Worker] initial_writer) = []"
  by (simp add: stop_after_appends_def run_def initial_writer_def truthy_def)

subsection \<open>Variable-length integers and blocks\<close>

lemma zigzag_encode_nonneg_arg: "0 \<le> d \<Longrightarrow> d < 2 ^ 63 \<Longrightarrow> zigzag_encode d = 2 * d"
  by (simp add: zigzag_encode_def push_bit_eq_mult drop_bit_eq_div)

lemma div_neg1: "- (2 ^ 63) \<le> d \<Longrightarrow> d < 0 \<Longrightarrow> d div 2 ^ 63 = (- 1 :: int)"
  by (rule int_div_pos_eq [where r = "d + 2 ^ 63"]) simp_all

lemma zigzag_encode_neg_arg:
  assumes "- (2 ^ 63) \<le> d" "d < 0"
  shows "zigzag_encode d = - 2 * d - 1"
proof -
  have "drop_bit 63 d = - 1"
    unfolding drop_bit_eq_div using assms by (rule div_neg1)
  then have "zigzag_encode d = NOT (push_bit 1 d)"
    by (simp add: zigzag_encode_def)
  then show ?thesis by (simp add: not_int_def push_bit_eq_mult)
qed

lemma zigzag_decode_even: "zigzag_decode (2 * d) = d"
  by (simp add: zigzag_decode_def drop_bit_eq_div and_one_eq)

lemma zigzag_decode_odd: "zigzag_decode (2 * e + 1) = - e - 1"
  by (simp add: zigzag_decode_def drop_bit_eq_div and_one_eq not_int_def)

lemma zigzag_roundtrip:
  assumes "- (2 ^ 63) \<le> d" "d < 2 ^ 63"
  shows "0 \<le> zigzag_encode d" and "zigzag_decode (zigzag_encode d) = d"
proof -
  show "0 \<le> zigzag_encode d"
    using assms by (cases "0 \<le> d") (simp_all add: zigzag_encode_nonneg_arg zigzag_encode_neg_arg)
  show "zigzag_decode (zigzag_encode d) = d"
  proof (cases "0 \<le> d")
    case True
    with assms show ?thesis by (simp add: zigzag_encode_nonneg_arg zigzag_decode_even)
  next
    case False
    then have "zigzag_encode d = 2 * (- d - 1) + 1"
      using assms by (simp add: zigzag_encode_neg_arg)
    then show ?thesis by (simp only: zigzag_decode_odd)
  qed
qed

lemma or_push:
  fixes r x :: int
  assumes "0 \<le> r" "r < 2 ^ s"
  shows "r OR push_bit s x = r + x * 2 ^ s"
proof -
  have t: "take_bit s r = r" using assms by (simp add: take_bit_int_eq_self)
  have "r AND push_bit s x = 0"
  proof (rule bit_eqI)
    fix n
    have "bit r n \<Longrightarrow> n < s" using t by (metis bit_take_bit_iff)
    then show "bit (r AND push_bit s x) n = bit (0::int) n" by (auto simp: bit_simps)
  qed
  then have "r + push_bit s x = r OR push_bit s x" by (rule disjunctive_add_eq_or)
  then show ?thesis by (simp add: push_bit_eq_mult)
qed

lemma byte_high_bit: "(b :: byte) AND 0x80 = 0 \<longleftrightarrow> \<not> bit b 7"
proof -
  have "(0x80 :: byte) = 2 ^ 7" by simp
  then show ?thesis by (simp only: and_exp_eq_0_iff_not_bit)
qed

lemma byte_low_bits: "uint ((b :: byte) AND 0x7F) = uint b mod 128"
proof -
  have "(0x7F :: byte) = mask 7" by (simp add: mask_eq_exp_minus_1)
  then have "b AND 0x7F = take_bit 7 b" by (simp only: take_bit_eq_mask)
  then have "uint (b AND 0x7F) = take_bit 7 (uint b)" by (simp only: unsigned_take_bit_eq)
  then show ?thesis by (simp add: take_bit_eq_mod)
qed

lemma uint_of_nat_byte: "k < 256 \<Longrightarrow> uint (of_nat k :: byte) = int k"
  by (simp add: unsigned_of_nat take_bit_nat_eq_self)

lemma last_byte:
  assumes "drop_bit 7 n = 0"
  shows "\<not> bit (of_nat n :: byte) 7" and "uint (of_nat n :: byte) mod 128 = int n"
proof -
  have n: "n < 128" using assms by (simp add: drop_bit_eq_div div_eq_0_iff)
  then have "take_bit 7 n = n" by (simp add: take_bit_nat_eq_self)
  then have "\<not> bit n 7" by (metis bit_take_bit_iff less_irrefl)
  then show "\<not> bit (of_nat n :: byte) 7" by (simp add: bit_simps)
  show "uint (of_nat n :: byte) mod 128 = int n"
    using n by (simp add: unsigned_of_nat take_bit_nat_eq_self)
qed

lemma cont_byte:
  shows "bit (of_nat ((n AND 0x7F) OR 0x80) :: byte) 7"
    and "uint (of_nat ((n AND 0x7F) OR 0x80) :: byte) mod 128 = int (n mod 128)"
proof -
  have m: "(0x7F :: nat) = mask 7" by (simp add: mask_eq_exp_minus_1)
  have a: "n AND 0x7F = n mod 128" by (simp only: m flip: take_bit_eq_mask) (simp add: take_bit_eq_mod)
  have e: "(0x80 :: nat) = 2 ^ 7" by simp
  have "bit ((n AND 0x7F) OR 0x80) 7" by (simp only: e bit_or_iff bit_exp_iff) simp
  then show "bit (of_nat ((n AND 0x7F) OR 0x80) :: byte) 7" by (simp add: bit_simps)
  have d: "(n mod 128) AND (2 ^ 7) = 0"
  proof -
    have "take_bit 7 (n mod 128) = n mod 128" by (simp add: take_bit_nat_eq_self)
    then have "\<not> bit (n mod 128) 7" by (metis bit_take_bit_iff less_irrefl)
    then show ?thesis using and_exp_eq_0_iff_not_bit [of "n mod 128" 7] by blast
  qed
  have o: "(n AND 0x7F) OR 0x80 = n mod 128 + 128"
    using disjunctive_add_eq_or [OF d] by (simp add: a)
  define k where "k = n mod 128 + 128"
  have "k < 256" by (simp add: k_def)
  then have "uint (of_nat k :: byte) = int k" by (rule uint_of_nat_byte)
  moreover have "int k mod 128 = int (n mod 128)" by (simp add: k_def zmod_int)
  ultimately show "uint (of_nat ((n AND 0x7F) OR 0x80) :: byte) mod 128 = int (n mod 128)"
    unfolding o k_def [symmetric] by simp
qed

lemma varint_roundtrip:
  "0 \<le> r \<Longrightarrow> r < 2 ^ s \<Longrightarrow>
     read_varint_loop (write_varint n @ rest) s r = Some (r + int n * 2 ^ s, rest)"
proof (induction n arbitrary: s r rule: write_varint.induct)
  case (1 n)
  show ?case
  proof (cases "drop_bit 7 n = 0")
    case True
    then have w: "write_varint n = [of_nat n]" by (subst write_varint.simps) simp
    from True have h: "(of_nat n :: byte) AND 0x80 = 0"
      and l: "uint ((of_nat n :: byte) AND 0x7F) = int n"
      unfolding byte_high_bit byte_low_bits by (rule last_byte)+
    show ?thesis
      unfolding w using 1(2,3)
      by (simp only: append_Cons append_Nil read_varint_loop.simps h l if_True or_push refl)
  next
    case False
    let ?b = "of_nat ((n AND 0x7F) OR 0x80) :: byte"
    let ?r = "r + int (n mod 128) * 2 ^ s"
    have w: "write_varint n = ?b # write_varint (drop_bit 7 n)"
      using False by (subst write_varint.simps) simp
    have h: "?b AND 0x80 \<noteq> 0" and l: "uint (?b AND 0x7F) = int (n mod 128)"
      unfolding byte_high_bit byte_low_bits by (simp_all only: cont_byte not_not)
    have r0: "0 \<le> ?r" using 1(2) by simp
    have "int (n mod 128) \<le> 127" by simp
    then have "int (n mod 128) * 2 ^ s \<le> 127 * 2 ^ s" by (intro mult_right_mono) simp_all
    with 1(3) have "?r < 2 ^ s + 127 * 2 ^ s" by linarith
    also have "(2::int) ^ s + 127 * 2 ^ s = 2 ^ (s + 7)" by (simp add: power_add)
    finally have r1: "?r < 2 ^ (s + 7)" .
    have ih: "read_varint_loop (write_varint (drop_bit 7 n) @ rest) (s + 7) ?r
        = Some (?r + int (drop_bit 7 n) * 2 ^ (s + 7), rest)"
      using False r0 r1 by (rule 1(1))
    have "n = n mod 128 + n div 128 * 128" by simp
    then have "int n = int (n mod 128 + n div 128 * 128)" by (rule arg_cong)
    then have "int n = int (n mod 128) + int (n div 128) * 128" by (simp only: of_nat_add of_nat_mult of_nat_numeral)
    then have "?r + int (drop_bit 7 n) * 2 ^ (s + 7) = r + int n * 2 ^ s"
      by (simp add: drop_bit_eq_div power_add algebra_simps)
    with ih show ?thesis
      unfolding w using 1(2,3)
      by (simp only: append_Cons read_varint_loop.simps h l if_False or_push)
  qed
qed

lemma write_varint_nonempty: "write_varint n \<noteq> []"
  by (subst write_varint.simps) simp

lemma write_long_nonempty: "write_long d \<noteq> []"
  by (simp add: write_long_def write_varint_nonempty)

lemma read_long_write_long:
  assumes "drop pos content = write_long d @ rest" "- (2 ^ 63) \<le> d" "d < 2 ^ 63"
  shows "read_long content pos = Inr (d, pos + length (write_long d))"
proof -
  have "read_varint_loop (write_varint (nat (zigzag_encode d)) @ rest) 0 0
      = Some (0 + int (nat (zigzag_encode d)) * 2 ^ 0, rest)"
    by (rule varint_roundtrip) simp_all
  then have l: "read_varint_loop (drop pos content) 0 0 = Some (zigzag_encode d, rest)"
    using assms zigzag_roundtrip(1) [of d] by (simp add: write_long_def)
  have "length (drop pos content) = length (write_long d) + length rest"
    using assms(1) by simp
  then have "length content - length rest = pos + length (write_long d)"
    using write_long_nonempty [of d] by (cases "write_long d") auto
  with l show ?thesis
    using assms zigzag_roundtrip(2) [of d] by (simp add: read_long_def)
qed

lemma drop_after:
  "drop pos content = xs @ ys \<Longrightarrow> drop (pos + length xs) content = ys"
proof -
  assume a: "drop pos content = xs @ ys"
  have "drop (pos + length xs) content = drop (length xs) (drop pos content)"
    by (simp add: add.commute)
  with a show ?thesis by simp
qed

lemma fh_read_exact:
  "drop pos content = xs @ ys \<Longrightarrow> fh_read content pos (length xs) = (xs, pos + length xs)"
  by (simp add: fh_read_def)

lemma block_step:
  assumes d: "drop pos content = encode_block sync b @ rest"
    and c: "0 \<le> fst b" "fst b < 2 ^ 63" and l: "int (length (snd b)) < 2 ^ 63"
  obtains p1 p2 p3 where
    "read_long content pos = Inr (fst b, p1)"
    "read_long content p1 = Inr (int (length (snd b)), p2)"
    "fh_read content p2 (length (snd b)) = (snd b, p3)"
    "fh_read content p3 (length sync) = (sync, p3 + length sync)"
    "drop (p3 + length sync) content = rest"
    "p3 = p2 + length (snd b)"
    "p3 + length sync = pos + length (encode_block sync b)"
proof -
  let ?w1 = "write_long (fst b)"
  let ?w2 = "write_long (int (length (snd b)))"
  let ?p1 = "pos + length ?w1"
  let ?p2 = "?p1 + length ?w2"
  let ?p3 = "?p2 + length (snd b)"
  have d0: "drop pos content = ?w1 @ (?w2 @ snd b @ sync @ rest)"
    using d by (simp add: encode_block_def)
  have r1: "read_long content pos = Inr (fst b, ?p1)"
    using d0 c by (intro read_long_write_long) simp_all
  have d1: "drop ?p1 content = ?w2 @ (snd b @ sync @ rest)"
    using d0 by (rule drop_after)
  have r2: "read_long content ?p1 = Inr (int (length (snd b)), ?p2)"
    using d1 l by (intro read_long_write_long) simp_all
  have d2: "drop ?p2 content = snd b @ (sync @ rest)"
    using d1 by (rule drop_after)
  have r3: "fh_read content ?p2 (length (snd b)) = (snd b, ?p3)"
    using d2 by (rule fh_read_exact)
  have d3: "drop ?p3 content = sync @ rest"
    using d2 by (rule drop_after)
  have r4: "fh_read content ?p3 (length sync) = (sync, ?p3 + length sync)"
    using d3 by (rule fh_read_exact)
  have d4: "drop (?p3 + length sync) content = rest"
    using d3 by (rule drop_after)
  have e: "?p3 + length sync = pos + length (encode_block sync b)"
    by (simp add: encode_block_def)
  show thesis by (rule that [OF r1 r2 r3 r4 d4 refl e])
qed

lemma decoder_read_exact:
  assumes "fh_read content pos n = (xs, p)" "length xs = n" "int n < 2 ^ 63"
  shows "decoder_read content pos (int n) = Inr (xs, p)"
  using assms by (simp add: decoder_read_def)

lemma encode_block_nonempty: "encode_block sync b @ rest \<noteq> []"
  by (simp add: encode_block_def write_long_nonempty)

lemma not_at_end: "drop pos content = encode_block sync b @ rest \<Longrightarrow> \<not> length content \<le> pos"
  using encode_block_nonempty [of sync b rest] by auto

lemma read_blocks_valid:
  assumes "length sync = 16"
  shows "drop pos content = encode_blocks sync bs \<Longrightarrow>
     list_all (valid_block rd dc schema codec) bs \<Longrightarrow>
     read_blocks rd dc schema codec sync content pos acc
       = Some (Inr (acc @ concat (map (\<lambda>b. the (decode_block rd dc schema codec b)) bs)))"
proof (induction bs arbitrary: pos acc)
  case Nil
  then have "length content \<le> pos" by (simp add: encode_blocks_def)
  then show ?case by (subst read_blocks.simps) simp
next
  case (Cons b bs)
  from Cons.prems(1) have d: "drop pos content = encode_block sync b @ encode_blocks sync bs"
    by (simp add: encode_blocks_def)
  from Cons.prems(2) have v: "valid_block rd dc schema codec b"
    and vs: "list_all (valid_block rd dc schema codec) bs" by simp_all
  from v obtain recs where dec: "decode_block rd dc schema codec b = Some recs"
    by (auto simp: valid_block_def)
  from v have c: "0 \<le> fst b" "fst b < 2 ^ 63" and l: "int (length (snd b)) < 2 ^ 63"
    by (simp_all add: valid_block_def)
  from d c l obtain p1 p2 p3 where
    r1: "read_long content pos = Inr (fst b, p1)" and
    r2: "read_long content p1 = Inr (int (length (snd b)), p2)" and
    r3: "fh_read content p2 (length (snd b)) = (snd b, p3)" and
    r4: "fh_read content p3 (length sync) = (sync, p3 + length sync)" and
    d4: "drop (p3 + length sync) content = encode_blocks sync bs"
    by (rule block_step)
  have q3: "decoder_read content p2 (int (length (snd b))) = Inr (snd b, p3)"
    using r3 l by (intro decoder_read_exact) simp_all
  have q4: "decoder_read content p3 16 = Inr (sync, p3 + 16)"
    using r4 assms decoder_read_exact [of content p3 16 sync "p3 + 16"] by simp
  have ih: "read_blocks rd dc schema codec sync content (p3 + 16) (acc @ recs)
      = Some (Inr ((acc @ recs) @ concat (map (\<lambda>b. the (decode_block rd dc schema codec b)) bs)))"
    using d4 vs assms by (intro Cons.IH) simp_all
  have e: "\<not> length content \<le> pos" using d by (rule not_at_end)
  show ?case
    by (subst read_blocks.simps) (simp add: e r1 r2 q3 q4 dec ih)
qed

lemma copy_blocks_valid:
  assumes "length sync = 16"
  shows "drop pos content = encode_blocks sync bs \<Longrightarrow>
     list_all (valid_block rd dc schema codec) bs \<Longrightarrow>
     copy_blocks osm content pos out = Some (Inr (out @ encode_blocks osm bs))"
proof (induction bs arbitrary: pos out)
  case Nil
  then have "length content \<le> pos" by (simp add: encode_blocks_def)
  then show ?case by (subst copy_blocks.simps) (simp add: encode_blocks_def)
next
  case (Cons b bs)
  from Cons.prems(1) have d: "drop pos content = encode_block sync b @ encode_blocks sync bs"
    by (simp add: encode_blocks_def)
  from Cons.prems(2) have v: "valid_block rd dc schema codec b"
    and vs: "list_all (valid_block rd dc schema codec) bs" by simp_all
  from v have c: "0 \<le> fst b" "fst b < 2 ^ 63" and l: "int (length (snd b)) < 2 ^ 63"
    by (simp_all add: valid_block_def)
  from d c l obtain p1 p2 p3 where
    r1: "read_long content pos = Inr (fst b, p1)" and
    r2: "read_long content p1 = Inr (int (length (snd b)), p2)" and
    r3: "fh_read content p2 (length (snd b)) = (snd b, p3)" and
    r4: "fh_read content p3 (length sync) = (sync, p3 + length sync)" and
    d4: "drop (p3 + length sync) content = encode_blocks sync bs"
    by (rule block_step)
  have q3: "decoder_read content p2 (int (length (snd b))) = Inr (snd b, p3)"
    using r3 l by (intro decoder_read_exact) simp_all
  have q4: "decoder_read content p3 16 = Inr (sync, p3 + 16)"
    using r4 assms decoder_read_exact [of content p3 16 sync "p3 + 16"] by simp
  have ih: "copy_blocks osm content (p3 + 16) (out @ encode_block osm b)
      = Some (Inr ((out @ encode_block osm b) @ encode_blocks osm bs))"
    using d4 vs assms by (intro Cons.IH) simp_all
  have e: "\<not> length content \<le> pos" using d by (rule not_at_end)
  show ?case
    by (subst copy_blocks.simps)
      (simp add: e r1 r2 q3 q4 ih [unfolded encode_block_def] encode_blocks_def encode_block_def)
qed

lemma read_long_at_end:
  "drop pos content = [] \<Longrightarrow> read_long content pos = Inl (AvroException ''Read 0 bytes, expected 1 bytes'')"
  by (simp add: read_long_def)

lemma fast_count_valid:
  assumes "length sync = 16"
  shows "drop pos content = encode_blocks sync bs \<Longrightarrow>
     list_all (valid_block rd dc schema codec) bs \<Longrightarrow>
     fast_count_loop content sync pos t = Some (Inr (t + sum_list (map fst bs), False))"
proof (induction bs arbitrary: pos t)
  case Nil
  then have "drop pos content = []" by (simp add: encode_blocks_def)
  then have "read_long content pos = Inl (AvroException ''Read 0 bytes, expected 1 bytes'')"
    by (rule read_long_at_end)
  then show ?case by (subst fast_count_loop.simps) simp
next
  case (Cons b bs)
  from Cons.prems(1) have d: "drop pos content = encode_block sync b @ encode_blocks sync bs"
    by (simp add: encode_blocks_def)
  from Cons.prems(2) have v: "valid_block rd dc schema codec b"
    and vs: "list_all (valid_block rd dc schema codec) bs" by simp_all
  from v have c: "0 \<le> fst b" "fst b < 2 ^ 63" and l: "int (length (snd b)) < 2 ^ 63"
    by (simp_all add: valid_block_def)
  from d c l obtain p1 p2 p3 where
    r1: "read_long content pos = Inr (fst b, p1)" and
    r2: "read_long content p1 = Inr (int (length (snd b)), p2)" and
    r3: "fh_read content p2 (length (snd b)) = (snd b, p3)" and
    r4: "fh_read content p3 (length sync) = (sync, p3 + length sync)" and
    d4: "drop (p3 + length sync) content = encode_blocks sync bs" and
    p3: "p3 = p2 + length (snd b)"
    by (rule block_step)
  then have s: "nat (int p2 + int (length (snd b))) = p3" by simp
  have ih: "fast_count_loop content sync (p3 + 16) (t + fst b)
      = Some (Inr (t + fst b + sum_list (map fst bs), False))"
    using d4 vs assms by (intro Cons.IH) simp_all
  have n: "\<not> (2 ^ 63 \<le> int (length (snd b)) \<or> int (length (snd b)) < - (2 ^ 63))"
    using l by simp
  show ?case
    using r4 assms l
    by (subst fast_count_loop.simps) (simp add: r1 r2 s ih add.assoc del: of_nat_add)
qed

lemma decode_records_length:
  "decode_records rd n data acc = (recs, True) \<Longrightarrow> length recs = length acc + n"
proof (induction n arbitrary: data acc)
  case 0
  then show ?case by simp
next
  case (Suc n)
  then show ?case by (cases "rd data") (auto split: prod.splits)
qed


lemma valid_block_length:
  assumes "valid_block rd dc schema codec b"
  shows "int (length (the (decode_block rd dc schema codec b))) = fst b"
proof -
  from assms obtain recs where d: "decode_block rd dc schema codec b = Some recs"
    by (auto simp: valid_block_def)
  then obtain raw where "decode_records (rd schema) (nat (fst b)) raw [] = (recs, True)"
    by (auto simp: decode_block_def split: option.splits prod.splits if_splits)
  then have "length recs = nat (fst b)" using decode_records_length by fastforce
  with assms d show ?thesis by (simp add: valid_block_def)
qed

lemma valid_blocks_length:
  "list_all (valid_block rd dc schema codec) bs \<Longrightarrow>
     int (length (concat (map (\<lambda>b. the (decode_block rd dc schema codec b)) bs)))
       = sum_list (map fst bs)"
  by (induction bs) (simp_all add: valid_block_length)

lemma encode_blocks_append:
  "encode_blocks sync (xs @ ys) = encode_blocks sync xs @ encode_blocks sync ys"
  by (simp add: encode_blocks_def)

lemma fast_count_prefix:
  assumes "length sync = 16"
  shows "drop pos content = encode_blocks sync bs @ tail \<Longrightarrow>
     list_all (valid_block rd dc schema codec) bs \<Longrightarrow>
     fast_count_loop content sync pos t
       = fast_count_loop content sync (pos + length (encode_blocks sync bs))
           (t + sum_list (map fst bs))"
proof (induction bs arbitrary: pos t)
  case Nil
  show ?case by (simp add: encode_blocks_def)
next
  case (Cons b bs)
  from Cons.prems(1) have d: "drop pos content = encode_block sync b @ (encode_blocks sync bs @ tail)"
    by (simp add: encode_blocks_def)
  from Cons.prems(2) have v: "valid_block rd dc schema codec b"
    and vs: "list_all (valid_block rd dc schema codec) bs" by simp_all
  from v have c: "0 \<le> fst b" "fst b < 2 ^ 63" and l: "int (length (snd b)) < 2 ^ 63"
    by (simp_all add: valid_block_def)
  from d c l obtain p1 p2 p3 where
    r1: "read_long content pos = Inr (fst b, p1)" and
    r2: "read_long content p1 = Inr (int (length (snd b)), p2)" and
    r3: "fh_read content p2 (length (snd b)) = (snd b, p3)" and
    r4: "fh_read content p3 (length sync) = (sync, p3 + length sync)" and
    d4: "drop (p3 + length sync) content = encode_blocks sync bs @ tail" and
    p3: "p3 = p2 + length (snd b)" and
    e0: "p3 + length sync = pos + length (encode_block sync b)"
    by (rule block_step)
  have s: "nat (int p2 + int (length (snd b))) = p3" using p3 by simp
  have e: "p3 + 16 = pos + length (encode_block sync b)" using e0 assms by simp
  have ih: "fast_count_loop content sync (p3 + 16) (t + fst b)
      = fast_count_loop content sync (p3 + 16 + length (encode_blocks sync bs))
          (t + fst b + sum_list (map fst bs))"
    using d4 vs assms by (intro Cons.IH) simp_all
  have f: "pos + length (encode_blocks sync (b # bs)) = p3 + 16 + length (encode_blocks sync bs)"
    using e by (simp add: encode_blocks_def)
  show ?case
    unfolding f using r4 assms l
    by (subst fast_count_loop.simps) (simp add: r1 r2 s ih add.assoc del: of_nat_add)
qed

lemma fast_count_mismatch:
  assumes "read_long content pos = Inr (c, p1)" "read_long content p1 = Inr (block_size, p2)"
    "- (2 ^ 63) \<le> block_size" "block_size < 2 ^ 63" "0 \<le> int p2 + block_size"
    "fst (fh_read content (nat (int p2 + block_size)) 16) \<noteq> sync"
  shows "fast_count_loop content sync pos t = Some (Inr (t + c, True))"
  using assms by (subst fast_count_loop.simps) (simp add: split_beta)

lemma drop_header: "drop (length h) (h @ b) = b"
  by simp

lemma datafile_records_valid:
  assumes v: "valid_ocf rd dc f bs"
  shows "datafile_records rd dc f = Some (Inr (records_of_blocks rd dc f bs))"
proof -
  from v have s: "length (sync_marker f) = 16"
    and b: "drop (length (header_raw f)) (header_raw f @ body f) = encode_blocks (sync_marker f) bs"
    and vs: "list_all (valid_block rd dc (meta_schema f) (snd (get_schema_and_codec f))) bs"
    by (simp_all add: valid_ocf_def)
  show ?thesis
    unfolding datafile_records_def records_of_blocks_def
    using read_blocks_valid [OF s b vs, of "[]"] by simp
qed

text \<open>The concrete files: the first is valid, and the scan of the second reads a count
  of 3 and a size of 1.\<close>

lemma decode_records_numeral:
  "decode_records rd (numeral k) data acc =
     (case rd data of
        None \<Rightarrow> (acc, False)
      | Some (r, rest) \<Rightarrow> decode_records rd (pred_numeral k) rest (acc @ [r]))"
  by (simp add: numeral_eq_Suc split: option.splits)

lemma example_sync_length: "length example_sync = 16"
  by (simp add: example_sync_def)

lemma example_block_valid:
  "valid_block example_read_datum example_decompress s c (2, [5, 6])"
  by (simp add: valid_block_def decode_block_def example_decompress_def example_read_datum_def
      decode_records_numeral)

lemma example_file_valid:
  "valid_ocf example_read_datum example_decompress example_file [(2, [5, 6])]"
  by (simp add: valid_ocf_def example_file_def example_sync_length example_block_valid)

lemma example_records:
  "records_of_blocks example_read_datum example_decompress example_file [(2, [5, 6])]
     = [[(''id'', 5)], [(''id'', 6)]]"
  by (simp add: records_of_blocks_def decode_block_def example_decompress_def
      example_read_datum_def decode_records_numeral)

lemma example_open_reads:
  "read_long (header_raw example_open_file @ body example_open_file) 20 = Inr (3, 21)"
  "read_long (header_raw example_open_file @ body example_open_file) 21 = Inr (1, 22)"
  by (simp_all add: example_open_file_def example_sync_def read_long_def zigzag_decode_def)

subsection \<open>The fast count\<close>

text \<open>
  C5. For a valid container file the fast count returns, without a warning, the number
  of records that reading the file gives. And when, after any number of valid blocks, the
  scan reads a count and a size, seeks over the payload and finds 16 bytes that are not
  the sync marker (or fewer than 16 bytes), the count returns normally with the warning
  logged and with the total accumulated so far: the counts of the valid blocks and the
  count of the block whose marker did not match.
\<close>

theorem fast_count_correct:
  "(valid_ocf rd dc f bs \<longrightarrow>
      datafile_records rd dc f = Some (Inr (records_of_blocks rd dc f bs))
      \<and> fast_count_records f = Some (Inr (int (length (records_of_blocks rd dc f bs)), False)))
   \<and> (length (sync_marker f) = 16
       \<and> list_all (valid_block rd dc (meta_schema f) (snd (get_schema_and_codec f))) bs
       \<and> body f = encode_blocks (sync_marker f) bs @ tail
       \<and> read_long (header_raw f @ body f)
            (length (header_raw f) + length (encode_blocks (sync_marker f) bs)) = Inr (c, p1)
       \<and> read_long (header_raw f @ body f) p1 = Inr (block_size, p2)
       \<and> - (2 ^ 63) \<le> block_size \<and> block_size < 2 ^ 63 \<and> 0 \<le> int p2 + block_size
       \<and> fst (fh_read (header_raw f @ body f) (nat (int p2 + block_size)) 16) \<noteq> sync_marker f
      \<longrightarrow> fast_count_records f = Some (Inr (sum_list (map fst bs) + c, True)))"
proof (intro conjI impI)
  assume v: "valid_ocf rd dc f bs"
  let ?schema = "meta_schema f" and ?codec = "snd (get_schema_and_codec f)"
  from v have s: "length (sync_marker f) = 16"
    and b: "drop (length (header_raw f)) (header_raw f @ body f) = encode_blocks (sync_marker f) bs"
    and vs: "list_all (valid_block rd dc ?schema ?codec) bs"
    by (simp_all add: valid_ocf_def)
  show "datafile_records rd dc f = Some (Inr (records_of_blocks rd dc f bs))"
    using v by (rule datafile_records_valid)
  have "fast_count_records f = Some (Inr (0 + sum_list (map fst bs), False))"
    unfolding fast_count_records_def using s b vs by (rule fast_count_valid)
  then show "fast_count_records f
      = Some (Inr (int (length (records_of_blocks rd dc f bs)), False))"
    using valid_blocks_length [OF vs] by (simp add: records_of_blocks_def)
next
  assume a: "length (sync_marker f) = 16
       \<and> list_all (valid_block rd dc (meta_schema f) (snd (get_schema_and_codec f))) bs
       \<and> body f = encode_blocks (sync_marker f) bs @ tail
       \<and> read_long (header_raw f @ body f)
            (length (header_raw f) + length (encode_blocks (sync_marker f) bs)) = Inr (c, p1)
       \<and> read_long (header_raw f @ body f) p1 = Inr (block_size, p2)
       \<and> - (2 ^ 63) \<le> block_size \<and> block_size < 2 ^ 63 \<and> 0 \<le> int p2 + block_size
       \<and> fst (fh_read (header_raw f @ body f) (nat (int p2 + block_size)) 16) \<noteq> sync_marker f"
  let ?content = "header_raw f @ body f"
  let ?q = "length (header_raw f) + length (encode_blocks (sync_marker f) bs)"
  from a have s: "length (sync_marker f) = 16"
    and vs: "list_all (valid_block rd dc (meta_schema f) (snd (get_schema_and_codec f))) bs"
    and b: "drop (length (header_raw f)) ?content = encode_blocks (sync_marker f) bs @ tail"
    by simp_all
  from a have r1: "read_long ?content ?q = Inr (c, p1)"
    and r2: "read_long ?content p1 = Inr (block_size, p2)"
    and lo: "- (2 ^ 63) \<le> block_size" and hi: "block_size < 2 ^ 63"
    and sk: "0 \<le> int p2 + block_size"
    and mm: "fst (fh_read ?content (nat (int p2 + block_size)) 16) \<noteq> sync_marker f"
    by blast+
  have "fast_count_loop ?content (sync_marker f) (length (header_raw f)) 0
      = fast_count_loop ?content (sync_marker f) ?q (0 + sum_list (map fst bs))"
    using s b vs by (rule fast_count_prefix)
  also have "\<dots> = Some (Inr (0 + sum_list (map fst bs) + c, True))"
    using r1 r2 lo hi sk mm by (rule fast_count_mismatch)
  finally show "fast_count_records f = Some (Inr (sum_list (map fst bs) + c, True))"
    by (simp add: fast_count_records_def)
qed

text \<open>The theorem at a file of one block of two records, and at a file whose only block
  declares three records and a payload of one byte and has no sync marker after it.\<close>

theorem fast_count_correct_witness:
  "fast_count_records example_file = Some (Inr (2, False))
   \<and> fast_count_records example_open_file = Some (Inr (3, True))"
proof -
  have "fast_count_records example_file
      = Some (Inr (int (length (records_of_blocks example_read_datum example_decompress
            example_file [(2, [5, 6])])), False))"
    using fast_count_correct [where rd = example_read_datum and dc = example_decompress
        and f = example_file and bs = "[(2, [5, 6])]"] example_file_valid
    by blast
  then have a: "fast_count_records example_file = Some (Inr (2, False))"
    by (simp add: example_records)
  have h: "length (sync_marker example_open_file) = 16
       \<and> list_all (valid_block example_read_datum example_decompress
            (meta_schema example_open_file) (snd (get_schema_and_codec example_open_file))) []
       \<and> body example_open_file = encode_blocks (sync_marker example_open_file) [] @ [6, 2, 9]
       \<and> read_long (header_raw example_open_file @ body example_open_file)
            (length (header_raw example_open_file)
              + length (encode_blocks (sync_marker example_open_file) [])) = Inr (3, 21)
       \<and> read_long (header_raw example_open_file @ body example_open_file) 21 = Inr (1, 22)
       \<and> - (2 ^ 63) \<le> (1::int) \<and> (1::int) < 2 ^ 63 \<and> 0 \<le> int 22 + 1
       \<and> fst (fh_read (header_raw example_open_file @ body example_open_file)
            (nat (int 22 + 1)) 16) \<noteq> sync_marker example_open_file"
  proof -
    have q: "length (header_raw example_open_file)
        + length (encode_blocks (sync_marker example_open_file) []) = 20"
      by (simp add: encode_blocks_def example_open_file_def example_sync_def)
    have m: "fst (fh_read (header_raw example_open_file @ body example_open_file)
        (nat (int 22 + 1)) 16) \<noteq> sync_marker example_open_file"
      by (simp add: example_open_file_def example_sync_def fh_read_def)
    have b: "body example_open_file = encode_blocks (sync_marker example_open_file) [] @ [6, 2, 9]"
      by (simp add: encode_blocks_def example_open_file_def)
    have l: "length (sync_marker example_open_file) = 16"
      by (simp add: example_open_file_def example_sync_def)
    show ?thesis
      unfolding q using example_open_reads m b l by simp
  qed
  have "fast_count_records example_open_file
      = Some (Inr (sum_list (map fst ([] :: block list)) + 3, True))"
    by (rule mp [OF conjunct2 [OF fast_count_correct [where rd = example_read_datum
        and dc = example_decompress and f = example_open_file and bs = "[]"
        and tail = "[6, 2, 9]" and c = 3 and ?p1.0 = 21 and block_size = 1 and ?p2.0 = 22]] h])
  with a show ?thesis by simp
qed

subsection \<open>The repair loop\<close>



subsection \<open>Concatenation by blocks\<close>

lemma check_rest_same:
  "check_rest base_schema base_codec fs \<Longrightarrow>
     \<forall>f \<in> set fs. get_schema_and_codec f = (base_schema, base_codec)"
  by (induction fs) (auto split: prod.splits if_splits)

lemma check_same:
  assumes "check_schema_and_codec (f0 # fs) desired_codec"
  shows "\<forall>f \<in> set (f0 # fs). get_schema_and_codec f = get_schema_and_codec f0"
proof -
  obtain s c where g: "get_schema_and_codec f0 = (s, c)" by (cases "get_schema_and_codec f0")
  with assms have "check_rest s c fs"
    by (auto simp: check_schema_and_codec_def split: if_splits)
  then have "\<forall>f \<in> set fs. get_schema_and_codec f = (s, c)" by (rule check_rest_same)
  with g show ?thesis by simp
qed

lemma meta_schema_get: "meta_schema f = fst (get_schema_and_codec f)"
  by (simp add: get_schema_and_codec_def)

lemma block_concat_from_valid:
  "\<forall>f \<in> set fs. valid_ocf rd dc f (blocks_of f) \<Longrightarrow>
     block_concat_from osm fs out
       = Some (Inr (out @ encode_blocks osm (concat (map blocks_of fs))))"
proof (induction fs arbitrary: out)
  case Nil
  show ?case by (simp add: encode_blocks_def)
next
  case (Cons f fs)
  from Cons.prems have v: "valid_ocf rd dc f (blocks_of f)" by simp
  then have s: "length (sync_marker f) = 16"
    and b: "drop (length (header_raw f)) (header_raw f @ body f)
        = encode_blocks (sync_marker f) (blocks_of f)"
    and vs: "list_all (valid_block rd dc (meta_schema f) (snd (get_schema_and_codec f)))
        (blocks_of f)"
    by (simp_all add: valid_ocf_def)
  have "copy_blocks osm (header_raw f @ body f) (length (header_raw f)) out
      = Some (Inr (out @ encode_blocks osm (blocks_of f)))"
    using s b vs by (rule copy_blocks_valid)
  moreover have "block_concat_from osm fs (out @ encode_blocks osm (blocks_of f))
      = Some (Inr ((out @ encode_blocks osm (blocks_of f))
          @ encode_blocks osm (concat (map blocks_of fs))))"
    using Cons.prems by (intro Cons.IH) simp
  ultimately show ?case by (simp add: encode_blocks_append)
qed

lemma concat_from_valid:
  "\<forall>f \<in> set fs. valid_ocf rd dc f (blocks_of f) \<Longrightarrow>
     concat_from rd dc fs written
       = Some (Inr (written @ concat (map (\<lambda>f. records_of_blocks rd dc f (blocks_of f)) fs)))"
proof (induction fs arbitrary: written)
  case Nil
  show ?case by simp
next
  case (Cons f fs)
  from Cons.prems have "valid_ocf rd dc f (blocks_of f)" by simp
  then have "datafile_records rd dc f = Some (Inr (records_of_blocks rd dc f (blocks_of f)))"
    using datafile_records_valid by blast
  moreover have "concat_from rd dc fs (written @ records_of_blocks rd dc f (blocks_of f))
      = Some (Inr ((written @ records_of_blocks rd dc f (blocks_of f))
          @ concat (map (\<lambda>f. records_of_blocks rd dc f (blocks_of f)) fs)))"
    using Cons.prems by (intro Cons.IH) simp
  ultimately show ?case by simp
qed

lemma records_of_blocks_concat:
  assumes "\<forall>f \<in> set fs. get_schema_and_codec f = get_schema_and_codec g"
  shows "records_of_blocks rd dc g (concat (map blocks_of fs))
     = concat (map (\<lambda>f. records_of_blocks rd dc f (blocks_of f)) fs)"
  using assms by (induction fs) (simp_all add: records_of_blocks_def meta_schema_get)

lemma valid_blocks_concat:
  assumes "\<forall>f \<in> set fs. get_schema_and_codec f = get_schema_and_codec g"
    and "\<forall>f \<in> set fs. valid_ocf rd dc f (blocks_of f)"
  shows "list_all (valid_block rd dc (meta_schema g) (snd (get_schema_and_codec g)))
     (concat (map blocks_of fs))"
  using assms by (induction fs) (simp_all add: valid_ocf_def meta_schema_get)

lemma valid_ocf_nonempty: "valid_ocf rd dc f bs \<Longrightarrow> 0 < length (header_raw f @ body f)"
  by (cases "header_raw f") (auto simp: valid_ocf_def)

text \<open>
  C4 (as amended). For a list of container files, not empty, that passes the check of schema and
  codec, each file a valid container file of some blocks: \<open>block_concat\<close> writes the
  header of the first input followed by the blocks of all inputs in order, each ending
  with the sync marker of the first input, which is the sync marker of the output; the
  concatenation by records writes the records of all inputs in order; and reading the
  file that \<open>block_concat\<close> wrote gives what the concatenation by records wrote. The
  output starts with the header of the first input, so opened as a container file it is
  the first input with the blocks written as its body.
\<close>

theorem block_concat_equivalence:
  assumes "input_urls \<noteq> []"
    and "check_schema_and_codec input_urls desired_codec"
    and "\<forall>f \<in> set input_urls. valid_ocf rd dc f (blocks_of f)"
  shows "block_concat input_urls desired_codec
      = Some (Inr (header_raw (hd input_urls)
          @ encode_blocks (sync_marker (hd input_urls)) (concat (map blocks_of input_urls))))
    \<and> concat_records rd dc input_urls desired_codec
      = Some (Inr (concat (map (\<lambda>f. records_of_blocks rd dc f (blocks_of f)) input_urls)))
    \<and> datafile_records rd dc
        ((hd input_urls)\<lparr>body := encode_blocks (sync_marker (hd input_urls))
            (concat (map blocks_of input_urls))\<rparr>)
      = concat_records rd dc input_urls desired_codec"
proof -
  from assms(1) obtain f0 fs where i: "input_urls = f0 # fs" by (cases input_urls) auto
  let ?bs = "concat (map blocks_of input_urls)"
  let ?out = "f0\<lparr>body := encode_blocks (sync_marker f0) ?bs\<rparr>"
  have same: "\<forall>f \<in> set input_urls. get_schema_and_codec f = get_schema_and_codec f0"
    using assms(2) unfolding i by (rule check_same)
  have v0: "valid_ocf rd dc f0 (blocks_of f0)" using assms(3) i by simp
  have a: "block_concat input_urls desired_codec
      = Some (Inr (header_raw f0 @ encode_blocks (sync_marker f0) ?bs))"
    using block_concat_from_valid [OF assms(3), of "sync_marker f0" "header_raw f0"]
    by (simp add: block_concat_def i)
  have "list_ex (\<lambda>f. 0 < length (header_raw f @ body f)) input_urls"
    using valid_ocf_nonempty [OF v0] by (simp add: i)
  then have b: "concat_records rd dc input_urls desired_codec
      = Some (Inr (concat (map (\<lambda>f. records_of_blocks rd dc f (blocks_of f)) input_urls)))"
    using concat_from_valid [OF assms(3), of "[]"] by (simp add: concat_records_def)
  have g: "get_schema_and_codec ?out = get_schema_and_codec f0"
    by (simp add: get_schema_and_codec_def)
  have "list_all (valid_block rd dc (meta_schema f0) (snd (get_schema_and_codec f0))) ?bs"
    using same assms(3) by (rule valid_blocks_concat)
  then have "valid_ocf rd dc ?out ?bs"
    using v0 by (simp add: valid_ocf_def g)
  then have "datafile_records rd dc ?out = Some (Inr (records_of_blocks rd dc ?out ?bs))"
    by (rule datafile_records_valid)
  moreover have "records_of_blocks rd dc ?out ?bs
      = concat (map (\<lambda>f. records_of_blocks rd dc f (blocks_of f)) input_urls)"
    using same g by (intro records_of_blocks_concat) simp
  ultimately have c: "datafile_records rd dc ?out = concat_records rd dc input_urls desired_codec"
    using b by simp
  from a b c show ?thesis by (simp add: i)
qed

text \<open>The theorem at two copies of a file of one block of two records.\<close>

theorem block_concat_equivalence_witness:
  "block_concat [example_file, example_file] ''null''
     = Some (Inr (header_raw example_file
         @ encode_blocks example_sync [(2, [5, 6]), (2, [5, 6])]))
   \<and> datafile_records example_read_datum example_decompress
       (example_file\<lparr>body := encode_blocks example_sync [(2, [5, 6]), (2, [5, 6])]\<rparr>)
     = Some (Inr [[(''id'', 5)], [(''id'', 6)], [(''id'', 5)], [(''id'', 6)]])"
proof -
  have n: "[example_file, example_file] \<noteq> []" by simp
  have c: "check_schema_and_codec [example_file, example_file] ''null''"
    by (simp add: check_schema_and_codec_def get_schema_and_codec_def example_file_def)
  have v: "\<forall>f \<in> set [example_file, example_file].
      valid_ocf example_read_datum example_decompress f ((\<lambda>f. [(2, [5, 6])]) f)"
    by (simp add: example_file_valid)
  have s: "sync_marker example_file = example_sync" by (simp add: example_file_def)
  from block_concat_equivalence [OF n c v] show ?thesis
    by (simp add: example_records s)
qed

text \<open>
  C4 as stated fails at the empty list of inputs, which passes the check of schema and
  codec: \<open>block_concat\<close> returns with an output of no bytes, which has no header and is
  not a container file, and the concatenation by records raises \<open>ValueError\<close>.
\<close>

theorem block_concat_empty_counterexample:
  "check_schema_and_codec [] ''null''
   \<and> block_concat [] ''null'' = Some (Inr [])
   \<and> concat_records example_read_datum example_decompress [] ''null''
     = Some (Inl (ValueError ''No non-empty Avro files found.''))"
  by (simp add: check_schema_and_codec_def block_concat_def concat_records_def)

end
